theory Spec2Isabelle
  imports Main
begin

section \<open>Channels of empty structs\<close>

text \<open>
  Both pools of the middleware are Go channels of type \<open>chan struct{}\<close>.  The elements
  carry no data, so the state of such a channel is its capacity and the number of
  elements in its buffer (what Go reports as \<open>cap(c)\<close> and \<open>len(c)\<close>).

  \<open>make(chan struct{}, n)\<close> panics at run time with "makechan: size out of range" when
  \<open>n\<close> is negative; for an element type of size zero no other size is refused.
\<close>

record chan =
  cap :: nat
  len :: nat

datatype error = Makechan_size_out_of_range

definition make_chan :: "int \<Rightarrow> error + chan" where
  "make_chan n = (if n < 0 then Inl Makechan_size_out_of_range
                  else Inr \<lparr>cap = nat n, len = 0\<rparr>)"

text \<open>
  A send can proceed when the buffer has room, a receive when the buffer is not empty.
  No goroutine of the middleware ever receives from a pool before it has sent to it, so
  a send never meets a parked receiver and an unbuffered pool (capacity 0) never accepts
  a send.  A receive that finds a parked sender hands the freed slot to that sender at
  once; here this is the receive followed by the sender's own step.
\<close>

definition can_send :: "chan \<Rightarrow> bool" where
  "can_send c = (len c < cap c)"

definition can_recv :: "chan \<Rightarrow> bool" where
  "can_recv c = (0 < len c)"

definition send :: "chan \<Rightarrow> chan" where
  "send c = c\<lparr>len := len c + 1\<rparr>"

definition recv :: "chan \<Rightarrow> chan" where
  "recv c = c\<lparr>len := len c - 1\<rparr>"

section \<open>The middleware\<close>

text \<open>
  Handlers are opaque to the middleware: it only calls them.  A handler is named by an
  identifier; \<open>DefaultOverloadHandler\<close> is the package variable \<open>OverloadHandler\<close>
  (the 503 responder).  The field \<open>OverloadHandler\<close> of the struct may be nil.
  \<open>MaxWaitInQueue\<close> is a \<open>time.Duration\<close>, a signed integer that the code only compares
  with zero.  The test hook \<open>newTimer\<close> is left out: a timer is always made by
  \<open>time.NewTimer\<close>.
\<close>

datatype hdl = DefaultOverloadHandler | UserHandler nat

record Middleware =
  running :: chan
  queue :: chan
  handler :: hdl
  MaxWaitInQueue :: int
  OverloadHandler :: "hdl option"

text \<open>\<open>New\<close> of \<open>maxconnections/maxconnections.go\<close> (lines 49 to 55).\<close>

definition New :: "int \<Rightarrow> int \<Rightarrow> hdl \<Rightarrow> error + Middleware" where
  "New maxRunning maxInQueue h =
     (case make_chan maxRunning of
        Inl e \<Rightarrow> Inl e
      | Inr r \<Rightarrow>
          (case make_chan maxInQueue of
             Inl e \<Rightarrow> Inl e
           | Inr q \<Rightarrow> Inr \<lparr>running = r, queue = q, handler = h,
                            MaxWaitInQueue = 0, OverloadHandler = None\<rparr>))"

text \<open>\<open>New\<close> of the second implementation (\<open>unnamed/part_000\<close>, lines 213 to 222).\<close>

definition New2 :: "int \<Rightarrow> int \<Rightarrow> hdl \<Rightarrow> error + Middleware" where
  "New2 maxRunning maxInQueue h =
     (case make_chan maxRunning of
        Inl e \<Rightarrow> Inl e
      | Inr r \<Rightarrow>
          (case make_chan maxInQueue of
             Inl e \<Rightarrow> Inl e
           | Inr q \<Rightarrow> Inr \<lparr>running = r, queue = q, handler = h,
                            MaxWaitInQueue = 0,
                            OverloadHandler = Some DefaultOverloadHandler\<rparr>))"

section \<open>Requests as small-step processes\<close>

text \<open>
  Every request runs \<open>ServeHTTP\<close> on a goroutine of its own.  A request is modelled by
  its control point, the timer it has made (nil before line 88), whether the \<open>Done\<close>
  channel of its context is closed, and the history of the operations it has performed.
  The history is what the claims are stated on: a permit is acquired by a send to a pool
  and released by a receive from it.
\<close>

datatype pool = Running | Queue

datatype hres = Returns | Panics

datatype event =
    Send pool
  | Recv pool
  | NewTimer
  | TimerStop
  | Recv_timeout
  | Recv_ctx_done
  | Invoke_handler hdl
  | Invoke_overload hdl
  | Nil_deref
  | Finished hres

text \<open>
  A \<open>time.Timer\<close>: \<open>armed\<close> while it is going to fire, \<open>expired\<close> while the time value
  it has sent waits in its channel \<open>C\<close>.  \<open>Stop\<close> disarms it.
\<close>

record Timer =
  armed :: bool
  expired :: bool

datatype 'l ctl = At 'l | Returned | Panicked

record 'l req =
  pc :: "'l ctl"
  timer :: "Timer option"
  ctx_done :: bool
  hist :: "event list"

text \<open>
  The scheduler decides which request moves.  \<open>Next\<close> runs the statement at the control
  point; \<open>Take c\<close> resolves the three-way \<open>select\<close> in favour of case \<open>c\<close>, which must
  be ready; \<open>Handler x\<close> ends the handler call the request is in.
\<close>

datatype race = SlotFree | DeadlineFired | Cancelled

datatype lact = Next | Take race | Handler hres

definition emit :: "event list \<Rightarrow> 'l req \<Rightarrow> 'l req" where
  "emit es r = r\<lparr>hist := hist r @ es\<rparr>"

definition goto :: "'l ctl \<Rightarrow> 'l req \<Rightarrow> 'l req" where
  "goto p r = r\<lparr>pc := p\<rparr>"

fun unwind :: "hres \<Rightarrow> 'l ctl" where
  "unwind Returns = Returned"
| "unwind Panics = Panicked"

definition new_timer :: "'l req \<Rightarrow> 'l req" where
  "new_timer r = emit [NewTimer] (r\<lparr>timer := Some \<lparr>armed = True, expired = False\<rparr>\<rparr>)"

text \<open>\<open>if timer != nil { timer.Stop() }\<close>\<close>

definition stop_timer :: "'l req \<Rightarrow> 'l req" where
  "stop_timer r =
     (case timer r of
        None \<Rightarrow> r
      | Some t \<Rightarrow> emit [TimerStop] (r\<lparr>timer := Some (t\<lparr>armed := False\<rparr>)\<rparr>))"

text \<open>\<open>case <-timeout\<close>: ready when the timer's channel holds a value; a nil timer
  leaves \<open>timeout\<close> a channel that never delivers.\<close>

definition recv_timeout :: "'l req \<Rightarrow> 'l req option" where
  "recv_timeout r =
     (case timer r of
        None \<Rightarrow> None
      | Some t \<Rightarrow>
          if expired t
          then Some (emit [Recv_timeout] (r\<lparr>timer := Some (t\<lparr>expired := False\<rparr>)\<rparr>))
          else None)"

subsection \<open>\<open>ServeHTTP\<close> of \<open>maxconnections/maxconnections.go\<close>\<close>

text \<open>
  Control points are named by the line of the statement about to run; \<open>L61\<close> and
  \<open>L100\<close> are the deferred receives, run when the handler has returned or panicked.
  A step is one operation on a channel together with the local statements that follow
  it; the call of a handler is recorded by the step that leads to it, and at \<open>L63\<close>,
  \<open>L77\<close>, \<open>L102\<close> and \<open>L106\<close> the request is inside the handler until the handler
  ends.  A \<open>select\<close> with a \<open>default\<close> takes its send when the send is ready.  Lines 69
  to 72 choose the overload handler; \<open>overloadHandler\<close> is that local variable.
\<close>

datatype lineA =
    L58 | L63 | L61 hres | L74 | L77 | L81 | L92 | L94 | L95 | L102 | L100 hres
  | L105 | L106 | L109 | L110

definition overloadHandler :: "Middleware \<Rightarrow> hdl" where
  "overloadHandler m =
     (case OverloadHandler m of None \<Rightarrow> DefaultOverloadHandler | Some h \<Rightarrow> h)"

fun ServeHTTP_at ::
  "lineA \<Rightarrow> lact \<Rightarrow> Middleware \<Rightarrow> lineA req \<Rightarrow> (Middleware \<times> lineA req) option" where
  "ServeHTTP_at L58 Next m r =
     (if can_send (running m)
      then Some (m\<lparr>running := send (running m)\<rparr>,
                 emit [Send Running, Invoke_handler (handler m)] (goto (At L63) r))
      else Some (m, goto (At L74) r))"
| "ServeHTTP_at L63 (Handler x) m r = Some (m, emit [Finished x] (goto (At (L61 x)) r))"
| "ServeHTTP_at (L61 x) Next m r =
     (if can_recv (running m)
      then Some (m\<lparr>running := recv (running m)\<rparr>, emit [Recv Running] (goto (unwind x) r))
      else None)"
| "ServeHTTP_at L74 Next m r =
     (if can_send (queue m)
      then Some (m\<lparr>queue := send (queue m)\<rparr>, emit [Send Queue] (goto (At L81) r))
      else Some (m, emit [Invoke_overload (overloadHandler m)] (goto (At L77) r)))"
| "ServeHTTP_at L77 (Handler x) m r = Some (m, emit [Finished x] (goto (unwind x) r))"
| "ServeHTTP_at L81 Next m r =
     (if 0 < MaxWaitInQueue m
      then Some (m, goto (At L92) (new_timer r))
      else Some (m, goto (At L92) r))"
| "ServeHTTP_at L92 (Take SlotFree) m r =
     (if can_send (running m)
      then Some (m\<lparr>running := send (running m)\<rparr>, emit [Send Running] (goto (At L94) r))
      else None)"
| "ServeHTTP_at L92 (Take DeadlineFired) m r =
     (case recv_timeout r of
        None \<Rightarrow> None
      | Some r' \<Rightarrow> Some (m, goto (At L105) r'))"
| "ServeHTTP_at L92 (Take Cancelled) m r =
     (if ctx_done r then Some (m, emit [Recv_ctx_done] (goto (At L109) r)) else None)"
| "ServeHTTP_at L94 Next m r =
     (if can_recv (queue m)
      then Some (m\<lparr>queue := recv (queue m)\<rparr>, emit [Recv Queue] (goto (At L95) r))
      else None)"
| "ServeHTTP_at L95 Next m r =
     Some (m, emit [Invoke_handler (handler m)] (goto (At L102) (stop_timer r)))"
| "ServeHTTP_at L102 (Handler x) m r = Some (m, emit [Finished x] (goto (At (L100 x)) r))"
| "ServeHTTP_at (L100 x) Next m r =
     (if can_recv (running m)
      then Some (m\<lparr>running := recv (running m)\<rparr>, emit [Recv Running] (goto (unwind x) r))
      else None)"
| "ServeHTTP_at L105 Next m r =
     (if can_recv (queue m)
      then Some (m\<lparr>queue := recv (queue m)\<rparr>,
                 emit [Recv Queue, Invoke_overload (overloadHandler m)] (goto (At L106) r))
      else None)"
| "ServeHTTP_at L106 (Handler x) m r = Some (m, emit [Finished x] (goto (unwind x) r))"
| "ServeHTTP_at L109 Next m r =
     (if can_recv (queue m)
      then Some (m\<lparr>queue := recv (queue m)\<rparr>, emit [Recv Queue] (goto (At L110) r))
      else None)"
| "ServeHTTP_at L110 Next m r = Some (m, goto Returned (stop_timer r))"
| "ServeHTTP_at _ _ m r = None"

definition ServeHTTP_step ::
  "Middleware \<Rightarrow> lineA req \<Rightarrow> lact \<Rightarrow> (Middleware \<times> lineA req) option" where
  "ServeHTTP_step m r a = (case pc r of At l \<Rightarrow> ServeHTTP_at l a m r | _ \<Rightarrow> None)"

subsection \<open>\<open>enqueueRunning\<close> and \<open>ServeHTTP\<close> of the second implementation\<close>

text \<open>
  Lines 224 to 268 of \<open>unnamed/part_000\<close>.  \<open>D245 b\<close> and \<open>D235 b\<close> are the deferred
  calls of \<open>enqueueRunning\<close> (\<open>timer.Stop()\<close>, then the receive from the queue), run in
  this order while it returns \<open>b\<close>; \<open>D261\<close> is the deferred receive of \<open>ServeHTTP\<close>.
  \<open>timer.Stop()\<close> is deferred only when a timer was made.  Calling the method of a nil
  \<open>OverloadHandler\<close> panics.
\<close>

datatype lineB =
    L226 | L232 | L241 | L249 | D245 bool | D235 bool | L263 | D261 hres | L267

fun enqueueRunning_returns :: "bool \<Rightarrow> Middleware \<Rightarrow> lineB req \<Rightarrow> lineB req" where
  "enqueueRunning_returns True m r = emit [Invoke_handler (handler m)] (goto (At L263) r)"
| "enqueueRunning_returns False m r =
     (case OverloadHandler m of
        None \<Rightarrow> emit [Nil_deref] (goto Panicked r)
      | Some h \<Rightarrow> emit [Invoke_overload h] (goto (At L267) r))"

definition deferred :: "bool \<Rightarrow> lineB req \<Rightarrow> lineB ctl" where
  "deferred b r = (if timer r = None then At (D235 b) else At (D245 b))"

fun ServeHTTP2_at ::
  "lineB \<Rightarrow> lact \<Rightarrow> Middleware \<Rightarrow> lineB req \<Rightarrow> (Middleware \<times> lineB req) option" where
  "ServeHTTP2_at L226 Next m r =
     (if can_send (running m)
      then Some (m\<lparr>running := send (running m)\<rparr>,
                 enqueueRunning_returns True m (emit [Send Running] r))
      else Some (m, goto (At L232) r))"
| "ServeHTTP2_at L232 Next m r =
     (if can_send (queue m)
      then Some (m\<lparr>queue := send (queue m)\<rparr>, emit [Send Queue] (goto (At L241) r))
      else Some (m, enqueueRunning_returns False m r))"
| "ServeHTTP2_at L241 Next m r =
     (if 0 < MaxWaitInQueue m
      then Some (m, goto (At L249) (new_timer r))
      else Some (m, goto (At L249) r))"
| "ServeHTTP2_at L249 (Take SlotFree) m r =
     (if can_send (running m)
      then Some (m\<lparr>running := send (running m)\<rparr>,
                 emit [Send Running] (goto (deferred True r) r))
      else None)"
| "ServeHTTP2_at L249 (Take DeadlineFired) m r =
     (case recv_timeout r of
        None \<Rightarrow> None
      | Some r' \<Rightarrow> Some (m, goto (deferred False r') r'))"
| "ServeHTTP2_at L249 (Take Cancelled) m r =
     (if ctx_done r then Some (m, emit [Recv_ctx_done] (goto (deferred False r) r))
      else None)"
| "ServeHTTP2_at (D245 b) Next m r = Some (m, goto (At (D235 b)) (stop_timer r))"
| "ServeHTTP2_at (D235 b) Next m r =
     (if can_recv (queue m)
      then Some (m\<lparr>queue := recv (queue m)\<rparr>,
                 enqueueRunning_returns b m (emit [Recv Queue] r))
      else None)"
| "ServeHTTP2_at L263 (Handler x) m r = Some (m, emit [Finished x] (goto (At (D261 x)) r))"
| "ServeHTTP2_at (D261 x) Next m r =
     (if can_recv (running m)
      then Some (m\<lparr>running := recv (running m)\<rparr>, emit [Recv Running] (goto (unwind x) r))
      else None)"
| "ServeHTTP2_at L267 (Handler x) m r = Some (m, emit [Finished x] (goto (unwind x) r))"
| "ServeHTTP2_at _ _ m r = None"

definition ServeHTTP2_step ::
  "Middleware \<Rightarrow> lineB req \<Rightarrow> lact \<Rightarrow> (Middleware \<times> lineB req) option" where
  "ServeHTTP2_step m r a = (case pc r of At l \<Rightarrow> ServeHTTP2_at l a m r | _ \<Rightarrow> None)"

section \<open>Concurrent requests\<close>

text \<open>
  A system is one middleware and the requests it serves.  An action lets one request
  perform a step, lets the armed timer of a request fire, or closes the \<open>Done\<close> channel
  of a request's context.  A schedule is a list of actions; \<open>run\<close> is \<open>None\<close> when the
  schedule asks for a step that is not enabled.  Every state a schedule leads to from
  \<open>init\<close> is a reachable state, and every interleaving is some schedule.
\<close>

record 'l sys =
  mw :: Middleware
  reqs :: "'l req list"

datatype act = Req nat lact | Fire nat | CtxCancel nat

definition fire :: "'l req \<Rightarrow> 'l req option" where
  "fire r =
     (case timer r of
        None \<Rightarrow> None
      | Some t \<Rightarrow>
          if armed t then Some (r\<lparr>timer := Some \<lparr>armed = False, expired = True\<rparr>\<rparr>)
          else None)"

definition cancel :: "'l req \<Rightarrow> 'l req" where
  "cancel r = r\<lparr>ctx_done := True\<rparr>"

fun sys_step ::
  "(Middleware \<Rightarrow> 'l req \<Rightarrow> lact \<Rightarrow> (Middleware \<times> 'l req) option) \<Rightarrow>
   'l sys \<Rightarrow> act \<Rightarrow> 'l sys option" where
  "sys_step lstep s (Req i a) =
     (if i < length (reqs s)
      then (case lstep (mw s) (reqs s ! i) a of
              None \<Rightarrow> None
            | Some (m', r') \<Rightarrow> Some \<lparr>mw = m', reqs = (reqs s)[i := r']\<rparr>)
      else None)"
| "sys_step lstep s (Fire i) =
     (if i < length (reqs s)
      then (case fire (reqs s ! i) of
              None \<Rightarrow> None
            | Some r' \<Rightarrow> Some \<lparr>mw = mw s, reqs = (reqs s)[i := r']\<rparr>)
      else None)"
| "sys_step lstep s (CtxCancel i) =
     (if i < length (reqs s)
      then Some \<lparr>mw = mw s, reqs = (reqs s)[i := cancel (reqs s ! i)]\<rparr>
      else None)"

fun run ::
  "(Middleware \<Rightarrow> 'l req \<Rightarrow> lact \<Rightarrow> (Middleware \<times> 'l req) option) \<Rightarrow>
   'l sys \<Rightarrow> act list \<Rightarrow> 'l sys option" where
  "run lstep s [] = Some s"
| "run lstep s (a # as) =
     (case sys_step lstep s a of None \<Rightarrow> None | Some s' \<Rightarrow> run lstep s' as)"

definition arrive :: "'l \<Rightarrow> 'l req" where
  "arrive l = \<lparr>pc = At l, timer = None, ctx_done = False, hist = []\<rparr>"

definition init :: "Middleware \<Rightarrow> 'l \<Rightarrow> nat \<Rightarrow> 'l sys" where
  "init m l n = \<lparr>mw = m, reqs = replicate n (arrive l)\<rparr>"

text \<open>The two fields a caller may set after construction.\<close>

definition configure :: "int \<Rightarrow> hdl option \<Rightarrow> Middleware \<Rightarrow> Middleware" where
  "configure d oh m = m\<lparr>MaxWaitInQueue := d, OverloadHandler := oh\<rparr>"

definition terminated :: "'l req \<Rightarrow> bool" where
  "terminated r = (pc r = Returned \<or> pc r = Panicked)"

definition quiescent :: "'l sys \<Rightarrow> bool" where
  "quiescent s = list_all terminated (reqs s)"

section \<open>Reading a history\<close>

definition acquired :: "pool \<Rightarrow> event list \<Rightarrow> nat" where
  "acquired p h = count_list h (Send p)"

definition released :: "pool \<Rightarrow> event list \<Rightarrow> nat" where
  "released p h = count_list h (Recv p)"

definition held :: "pool \<Rightarrow> event list \<Rightarrow> nat" where
  "held p h = acquired p h - released p h"

definition total :: "(event list \<Rightarrow> nat) \<Rightarrow> 'l sys \<Rightarrow> nat" where
  "total f s = sum_list (map (\<lambda>r. f (hist r)) (reqs s))"

fun is_invoke_handler :: "event \<Rightarrow> bool" where
  "is_invoke_handler (Invoke_handler h) = True"
| "is_invoke_handler _ = False"

fun is_invoke_overload :: "event \<Rightarrow> bool" where
  "is_invoke_overload (Invoke_overload h) = True"
| "is_invoke_overload _ = False"

fun is_pool_op :: "event \<Rightarrow> bool" where
  "is_pool_op (Send p) = True"
| "is_pool_op (Recv p) = True"
| "is_pool_op _ = False"

text \<open>What a caller observes of one exchange (section 6 of the specification).\<close>

datatype observable = Delegate_invoked | Overload_invoked | No_response

definition observe :: "event list \<Rightarrow> observable" where
  "observe h =
     (if list_ex is_invoke_handler h then Delegate_invoked
      else if list_ex is_invoke_overload h then Overload_invoked
      else No_response)"

text \<open>The part of a history before the first event that satisfies \<open>P\<close>, and the part
  from that event on.\<close>

definition before :: "(event \<Rightarrow> bool) \<Rightarrow> event list \<Rightarrow> event list" where
  "before P h = takeWhile (\<lambda>e. \<not> P e) h"

definition from_on :: "(event \<Rightarrow> bool) \<Rightarrow> event list \<Rightarrow> event list" where
  "from_on P h = dropWhile (\<lambda>e. \<not> P e) h"

section \<open>One request alone\<close>

text \<open>
  One request followed from its arrival to its end, for the comparison of the two
  implementations.  A scenario fixes how the three-way race is resolved, if the request
  reaches it, and how the handler it invokes ends.  The request is alone to move; when it
  waits at the \<open>select\<close> the environment makes the chosen case ready (another request
  gives its running permit back, the timer fires, or the context is cancelled) and the
  request takes that case.  \<open>Stuck\<close> says that the chosen case cannot become ready.
\<close>

record scenario =
  wins :: race
  ends :: hres

datatype 'a res = Out_of_fuel | Stuck | Ended 'a

fun interfere :: "race \<Rightarrow> Middleware \<Rightarrow> 'l req \<Rightarrow> Middleware \<times> 'l req" where
  "interfere SlotFree m r =
     (if can_recv (running m) then (m\<lparr>running := recv (running m)\<rparr>, r) else (m, r))"
| "interfere DeadlineFired m r = (case fire r of None \<Rightarrow> (m, r) | Some r' \<Rightarrow> (m, r'))"
| "interfere Cancelled m r = (m, cancel r)"

fun solo ::
  "(Middleware \<Rightarrow> 'l req \<Rightarrow> lact \<Rightarrow> (Middleware \<times> 'l req) option) \<Rightarrow> scenario \<Rightarrow>
   nat \<Rightarrow> Middleware \<Rightarrow> 'l req \<Rightarrow> (Middleware \<times> 'l req) res" where
  "solo lstep sc 0 m r = (if terminated r then Ended (m, r) else Out_of_fuel)"
| "solo lstep sc (Suc k) m r =
     (if terminated r then Ended (m, r)
      else case lstep m r Next of
             Some (m', r') \<Rightarrow> solo lstep sc k m' r'
           | None \<Rightarrow>
               (case lstep m r (Handler (ends sc)) of
                  Some (m', r') \<Rightarrow> solo lstep sc k m' r'
                | None \<Rightarrow>
                    (case interfere (wins sc) m r of
                       (m1, r1) \<Rightarrow>
                         (case lstep m1 r1 (Take (wins sc)) of
                            Some (m', r') \<Rightarrow> solo lstep sc k m' r'
                          | None \<Rightarrow> Stuck))))"

text \<open>What is compared: what the caller observes, how often the request acquired and
  released each kind of permit, and the occupancy of the two pools it leaves behind.\<close>

record verdict =
  seen :: observable
  running_permits :: "nat \<times> nat"
  queue_permits :: "nat \<times> nat"
  occupancy :: "nat \<times> nat"

definition judge :: "Middleware \<times> 'l req \<Rightarrow> verdict" where
  "judge e =
     (case e of (m, r) \<Rightarrow>
        \<lparr>seen = observe (hist r),
         running_permits = (acquired Running (hist r), released Running (hist r)),
         queue_permits = (acquired Queue (hist r), released Queue (hist r)),
         occupancy = (len (running m), len (queue m))\<rparr>)"

fun map_res :: "('a \<Rightarrow> 'b) \<Rightarrow> 'a res \<Rightarrow> 'b res" where
  "map_res f Out_of_fuel = Out_of_fuel"
| "map_res f Stuck = Stuck"
| "map_res f (Ended x) = Ended (f x)"

definition ServeHTTP_alone :: "scenario \<Rightarrow> Middleware \<Rightarrow> verdict res" where
  "ServeHTTP_alone sc m = map_res judge (solo ServeHTTP_step sc 8 m (arrive L58))"

definition ServeHTTP2_alone :: "scenario \<Rightarrow> Middleware \<Rightarrow> verdict res" where
  "ServeHTTP2_alone sc m = map_res judge (solo ServeHTTP2_step sc 8 m (arrive L226))"

text \<open>The second implementation stores the default overload handler in the field at
  construction, where the first resolves a nil field at each request.\<close>

definition with_responder :: "Middleware \<Rightarrow> Middleware" where
  "with_responder m = m\<lparr>OverloadHandler := Some (overloadHandler m)\<rparr>"

text \<open>The request is put in the queue: no running slot is free and a queue slot is.\<close>

definition enqueues :: "Middleware \<Rightarrow> bool" where
  "enqueues m = (\<not> can_send (running m) \<and> can_send (queue m))"

text \<open>A middleware whose only running slot is taken and whose queue has room.\<close>

definition busy :: Middleware where
  "busy = \<lparr>running = \<lparr>cap = 1, len = 1\<rparr>, queue = \<lparr>cap = 1, len = 0\<rparr>,
           handler = UserHandler 0, MaxWaitInQueue = 0,
           OverloadHandler = Some DefaultOverloadHandler\<rparr>"

section \<open>Properties of histories\<close>

text \<open>At most one permit of each pool was acquired, and none was released that was not
  acquired.\<close>

definition at_most_once :: "event list \<Rightarrow> bool" where
  "at_most_once h =
     (acquired Running h \<le> 1 \<and> released Running h \<le> acquired Running h \<and>
      acquired Queue h \<le> 1 \<and> released Queue h \<le> acquired Queue h)"

definition all_released :: "event list \<Rightarrow> bool" where
  "all_released h =
     (released Running h = acquired Running h \<and> released Queue h = acquired Queue h)"

text \<open>The four ways a request comes to its end: after the handler, after the deadline,
  after a cancellation, or rejected at once without any operation on a pool.\<close>

definition exits :: "event list \<Rightarrow> bool list" where
  "exits h =
     [list_ex is_invoke_handler h, Recv_timeout \<in> set h, Recv_ctx_done \<in> set h,
      \<not> list_ex is_pool_op h]"

definition one_exit :: "event list \<Rightarrow> bool" where
  "one_exit h = (length (filter (\<lambda>b. b) (exits h)) = 1)"

text \<open>Schedules of two requests, one for each implementation: the first request is
  admitted at once, the second waits in the queue, its context is cancelled and it
  leaves the race by the cancellation.\<close>

definition schedule_cancel :: "act list" where
  "schedule_cancel =
     [Req 0 Next, Req 1 Next, Req 1 Next, Req 1 Next, CtxCancel 1, Req 1 (Take Cancelled),
      Req 1 Next, Req 1 Next]"

definition schedule_cancel2 :: "act list" where
  "schedule_cancel2 =
     [Req 0 Next, Req 1 Next, Req 1 Next, Req 1 Next, CtxCancel 1, Req 1 (Take Cancelled),
      Req 1 Next, Req 1 Next, Req 1 (Handler Returns)]"

text \<open>A schedule of three requests for a middleware with one running slot and two
  queue slots: the first is admitted at once, the second and the third wait in the
  queue; the third is cancelled and leaves the race, then the first is done and the
  second is promoted and reaches its handler.  It fits both implementations.\<close>

definition schedule_race :: "act list" where
  "schedule_race =
     [Req 0 Next, Req 1 Next, Req 1 Next, Req 1 Next, Req 2 Next, Req 2 Next, Req 2 Next,
      CtxCancel 2, Req 2 (Take Cancelled), Req 2 Next, Req 2 Next,
      Req 0 (Handler Returns), Req 0 Next, Req 1 (Take SlotFree), Req 1 Next, Req 1 Next]"

definition history :: "nat \<Rightarrow> 'l sys option \<Rightarrow> event list option" where
  "history i so = (case so of None \<Rightarrow> None | Some s \<Rightarrow> Some (hist (reqs s ! i)))"

definition lacts :: "lact list" where
  "lacts = [Next, Take SlotFree, Take DeadlineFired, Take Cancelled,
            Handler Returns, Handler Panics]"

definition enabled ::
  "(Middleware \<Rightarrow> 'l req \<Rightarrow> lact \<Rightarrow> (Middleware \<times> 'l req) option) \<Rightarrow>
   'l sys \<Rightarrow> nat \<Rightarrow> bool" where
  "enabled lstep s i = list_ex (\<lambda>a. sys_step lstep s (Req i a) \<noteq> None) lacts"

text \<open>
  No permit leaks: every request has acquired each kind of permit at most once and has
  released nothing it did not acquire; a request that has come to its end has released
  what it acquired and has left by exactly one of the four exits; a request that is not
  at its end and not at the three-way \<open>select\<close> (control point \<open>sel\<close>) can take a step,
  so no receive from a pool blocks; and when all requests are at their end, as many
  permits of each kind have been released as were acquired and both pools are empty.
\<close>

definition leak_free ::
  "(Middleware \<Rightarrow> 'l req \<Rightarrow> lact \<Rightarrow> (Middleware \<times> 'l req) option) \<Rightarrow> 'l \<Rightarrow> 'l sys \<Rightarrow> bool" where
  "leak_free lstep sel s =
     ((\<forall>r \<in> set (reqs s). at_most_once (hist r) \<and>
          (terminated r \<longrightarrow> all_released (hist r) \<and> one_exit (hist r))) \<and>
      (\<forall>i < length (reqs s). \<not> terminated (reqs s ! i) \<and> pc (reqs s ! i) \<noteq> At sel \<longrightarrow>
          enabled lstep s i) \<and>
      (quiescent s \<longrightarrow>
          total (acquired Running) s = total (released Running) s \<and>
          total (acquired Queue) s = total (released Queue) s \<and>
          len (running (mw s)) = 0 \<and> len (queue (mw s)) = 0))"

text \<open>Schedules of three requests that end with all of them finished: the first is
  admitted at once, the second waits in the queue and is admitted when the first is done,
  the third is rejected at once.  One schedule for each implementation.\<close>

definition schedule3 :: "act list" where
  "schedule3 =
     [Req 0 Next, Req 1 Next, Req 1 Next, Req 1 Next, Req 2 Next, Req 2 Next,
      Req 2 (Handler Returns), Req 0 (Handler Returns), Req 0 Next, Req 1 (Take SlotFree),
      Req 1 Next, Req 1 Next, Req 1 (Handler Panics), Req 1 Next]"

definition disarmed :: "'l req \<Rightarrow> bool" where
  "disarmed r = (case timer r of None \<Rightarrow> True | Some t \<Rightarrow> \<not> armed t)"

text \<open>
  The responder runs without permits: when the overload handler is invoked the request
  has released every permit it acquired, no operation on a pool follows the invocation,
  and a request that ends without its handler having been invoked holds no permit.
\<close>

definition rejected_holds_nothing :: "'l req \<Rightarrow> bool" where
  "rejected_holds_nothing r =
     ((list_ex is_invoke_overload (hist r) \<longrightarrow>
         all_released (before is_invoke_overload (hist r)) \<and>
         \<not> list_ex is_pool_op (from_on is_invoke_overload (hist r))) \<and>
      (terminated r \<and> observe (hist r) \<noteq> Delegate_invoked \<longrightarrow> all_released (hist r)))"

text \<open>
  The permits of one request: it never holds more than one permit of a pool; when its
  handler is invoked it holds one running permit and no queue permit, from then on it
  holds no queue permit, and it holds the running permit until it ends.
\<close>

definition one_permit_at_a_time :: "'l req \<Rightarrow> bool" where
  "one_permit_at_a_time r =
     (at_most_once (hist r) \<and> held Running (hist r) \<le> 1 \<and> held Queue (hist r) \<le> 1 \<and>
      (list_ex is_invoke_handler (hist r) \<longrightarrow>
         held Running (before is_invoke_handler (hist r)) = 1 \<and>
         held Queue (before is_invoke_handler (hist r)) = 0 \<and>
         held Queue (hist r) = 0 \<and>
         held Running (hist r) = (if terminated r then 0 else 1)))"

text \<open>
  The timer of a request that made one: when the handler is invoked, and when the
  request has left the race by the cancellation and has ended or invoked the overload
  handler, \<open>Stop\<close> was called before and the timer is not armed.
\<close>

definition timer_stopped :: "'l req \<Rightarrow> bool" where
  "timer_stopped r =
     (timer r \<noteq> None \<longrightarrow>
        (list_ex is_invoke_handler (hist r) \<longrightarrow>
           TimerStop \<in> set (before is_invoke_handler (hist r)) \<and> disarmed r) \<and>
        (Recv_ctx_done \<in> set (hist r) \<and>
         (terminated r \<or> list_ex is_invoke_overload (hist r)) \<longrightarrow>
           TimerStop \<in> set (before is_invoke_overload (hist r)) \<and> disarmed r))"

text \<open>
  A request that left the race by the cancellation and has ended: it acquired and
  released one queue permit and its timer, if it made one, was stopped.
\<close>

definition cancelled :: "'l req \<Rightarrow> bool" where
  "cancelled r = (Recv_ctx_done \<in> set (hist r) \<and> terminated r)"

definition queue_permit_returned :: "'l req \<Rightarrow> bool" where
  "queue_permit_returned r =
     (acquired Queue (hist r) = 1 \<and> released Queue (hist r) = 1 \<and>
      acquired Running (hist r) = 0 \<and>
      (timer r \<noteq> None \<longrightarrow> TimerStop \<in> set (hist r) \<and> disarmed r))"

definition cancel_silent :: "'l req \<Rightarrow> bool" where
  "cancel_silent r =
     (cancelled r \<longrightarrow> queue_permit_returned r \<and> observe (hist r) = No_response)"

definition cancel_overload :: "hdl option \<Rightarrow> 'l req \<Rightarrow> bool" where
  "cancel_overload oh r =
     (cancelled r \<longrightarrow>
        queue_permit_returned r \<and>
        (case oh of
           None \<Rightarrow> pc r = Panicked \<and> last (hist r) = Nil_deref
         | Some h \<Rightarrow> observe (hist r) = Overload_invoked \<and> Invoke_overload h \<in> set (hist r)))"

text \<open>
  A queue without capacity: the request never sends to the queue; at line 74 its next
  step is the call of the overload handler; and once it has failed the fast path it is
  at line 74, or inside the overload handler, or at its end after the overload handler,
  with nothing else in its history.
\<close>

definition overflow_rejected :: "Middleware \<Rightarrow> lineA req \<Rightarrow> bool" where
  "overflow_rejected m r =
     (Send Queue \<notin> set (hist r) \<and>
      (pc r = At L74 \<longrightarrow>
         ServeHTTP_step m r Next =
           Some (m, emit [Invoke_overload (overloadHandler m)] (goto (At L77) r))) \<and>
      (pc r \<noteq> At L58 \<and> Send Running \<notin> set (hist r) \<longrightarrow>
         pc r = At L74 \<and> hist r = [] \<or>
         pc r = At L77 \<and> hist r = [Invoke_overload (overloadHandler m)] \<or>
         terminated r \<and>
         hist r \<in> set [[Invoke_overload (overloadHandler m), Finished Returns],
                        [Invoke_overload (overloadHandler m), Finished Panics]]))"

text \<open>
  A wait without a deadline: the request has no timer, has neither made one nor received
  from the timeout channel, no timer of its can fire; and at the three-way \<open>select\<close> the
  timeout case cannot be taken, the send case can be taken exactly when the running pool
  has room, the cancellation case exactly when the context is done, and there is no
  other step.
\<close>

definition waits_without_deadline :: "Middleware \<Rightarrow> lineA req \<Rightarrow> bool" where
  "waits_without_deadline m r =
     (timer r = None \<and> NewTimer \<notin> set (hist r) \<and> Recv_timeout \<notin> set (hist r) \<and>
      fire r = None \<and>
      (pc r = At L92 \<longrightarrow>
         ServeHTTP_step m r (Take DeadlineFired) = None \<and>
         (ServeHTTP_step m r (Take SlotFree) \<noteq> None) = can_send (running m) \<and>
         (ServeHTTP_step m r (Take Cancelled) \<noteq> None) = ctx_done r \<and>
         list_all (\<lambda>a. ServeHTTP_step m r a = None) [Next, Handler Returns, Handler Panics]))"

section \<open>Invariants\<close>

text \<open>
  The history of a request is determined by its control point, up to whether it made a
  timer, how its handler ended and, in the second implementation, which event ended its
  wait.  The predicates below list these histories; they are shown to hold in every
  reachable state.
\<close>

definition tm :: "'l req \<Rightarrow> event list" where
  "tm r = (case timer r of None \<Rightarrow> [] | Some t \<Rightarrow> [NewTimer])"

definition st :: "'l req \<Rightarrow> event list" where
  "st r = (case timer r of None \<Rightarrow> [] | Some t \<Rightarrow> [TimerStop])"

definition timer_ok :: "Middleware \<Rightarrow> 'l req \<Rightarrow> bool" where
  "timer_ok m r = ((timer r = None) = (MaxWaitInQueue m \<le> 0))"

definition fastA :: "Middleware \<Rightarrow> event list" where
  "fastA m = [Send Running, Invoke_handler (handler m)]"

definition delayedA :: "Middleware \<Rightarrow> lineA req \<Rightarrow> event list" where
  "delayedA m r =
     Send Queue # tm r @ [Send Running, Recv Queue] @ st r @ [Invoke_handler (handler m)]"

definition timeoutA :: "Middleware \<Rightarrow> lineA req \<Rightarrow> event list" where
  "timeoutA m r =
     Send Queue # tm r @ [Recv_timeout, Recv Queue, Invoke_overload (overloadHandler m)]"

definition endedA :: "Middleware \<Rightarrow> hres \<Rightarrow> lineA req \<Rightarrow> bool" where
  "endedA m x r =
     (timer r = None \<and> hist r = fastA m @ [Finished x, Recv Running]
    \<or> timer r = None \<and> hist r = [Invoke_overload (overloadHandler m), Finished x]
    \<or> timer_ok m r \<and> disarmed r \<and> hist r = delayedA m r @ [Finished x, Recv Running]
    \<or> timer_ok m r \<and> timer r \<noteq> None \<and> hist r = timeoutA m r @ [Finished x]
    \<or> timer_ok m r \<and> disarmed r \<and> x = Returns \<and>
      hist r = Send Queue # tm r @ [Recv_ctx_done, Recv Queue] @ st r)"

fun atA :: "Middleware \<Rightarrow> lineA \<Rightarrow> lineA req \<Rightarrow> bool" where
  "atA m L58 r = (timer r = None \<and> hist r = [])"
| "atA m L63 r = (timer r = None \<and> hist r = fastA m)"
| "atA m (L61 x) r = (timer r = None \<and> hist r = fastA m @ [Finished x])"
| "atA m L74 r = (timer r = None \<and> hist r = [])"
| "atA m L77 r = (timer r = None \<and> hist r = [Invoke_overload (overloadHandler m)])"
| "atA m L81 r = (timer r = None \<and> hist r = [Send Queue])"
| "atA m L92 r = (timer_ok m r \<and> hist r = Send Queue # tm r)"
| "atA m L94 r = (timer_ok m r \<and> hist r = Send Queue # tm r @ [Send Running])"
| "atA m L95 r = (timer_ok m r \<and> hist r = Send Queue # tm r @ [Send Running, Recv Queue])"
| "atA m L102 r = (timer_ok m r \<and> disarmed r \<and> hist r = delayedA m r)"
| "atA m (L100 x) r = (timer_ok m r \<and> disarmed r \<and> hist r = delayedA m r @ [Finished x])"
| "atA m L105 r =
     (timer_ok m r \<and> timer r \<noteq> None \<and> hist r = Send Queue # tm r @ [Recv_timeout])"
| "atA m L106 r = (timer_ok m r \<and> timer r \<noteq> None \<and> hist r = timeoutA m r)"
| "atA m L109 r = (timer_ok m r \<and> hist r = Send Queue # tm r @ [Recv_ctx_done])"
| "atA m L110 r =
     (timer_ok m r \<and> hist r = Send Queue # tm r @ [Recv_ctx_done, Recv Queue])"

definition traceA :: "Middleware \<Rightarrow> lineA req \<Rightarrow> bool" where
  "traceA m r =
     (case pc r of At l \<Rightarrow> atA m l r | Returned \<Rightarrow> endedA m Returns r
                 | Panicked \<Rightarrow> endedA m Panics r)"

definition wokenB :: "bool \<Rightarrow> lineB req \<Rightarrow> event list list" where
  "wokenB b r =
     (if b then [Send Queue # tm r @ [Send Running]]
      else (if timer r = None then [] else [Send Queue # tm r @ [Recv_timeout]]) @
           [Send Queue # tm r @ [Recv_ctx_done]])"

definition admittedB :: "Middleware \<Rightarrow> lineB req \<Rightarrow> event list \<Rightarrow> bool" where
  "admittedB m r t =
     (timer r = None \<and> hist r = fastA m @ t
    \<or> timer_ok m r \<and> disarmed r \<and>
      hist r = Send Queue # tm r @ [Send Running] @ st r @
               [Recv Queue, Invoke_handler (handler m)] @ t)"

definition rejectedB :: "Middleware \<Rightarrow> lineB req \<Rightarrow> event list \<Rightarrow> bool" where
  "rejectedB m r t =
     (timer r = None \<and> hist r = t
    \<or> timer_ok m r \<and> disarmed r \<and>
      hist r \<in> set (map (\<lambda>h. h @ st r @ Recv Queue # t) (wokenB False r)))"

fun atB :: "Middleware \<Rightarrow> lineB \<Rightarrow> lineB req \<Rightarrow> bool" where
  "atB m L226 r = (timer r = None \<and> hist r = [])"
| "atB m L232 r = (timer r = None \<and> hist r = [])"
| "atB m L241 r = (timer r = None \<and> hist r = [Send Queue])"
| "atB m L249 r = (timer_ok m r \<and> hist r = Send Queue # tm r)"
| "atB m (D245 b) r = (timer_ok m r \<and> timer r \<noteq> None \<and> hist r \<in> set (wokenB b r))"
| "atB m (D235 b) r =
     (timer_ok m r \<and> disarmed r \<and> hist r \<in> set (map (\<lambda>h. h @ st r) (wokenB b r)))"
| "atB m L263 r = admittedB m r []"
| "atB m (D261 x) r = admittedB m r [Finished x]"
| "atB m L267 r =
     (case OverloadHandler m of
        None \<Rightarrow> False
      | Some oh \<Rightarrow> rejectedB m r [Invoke_overload oh])"

definition endedB :: "Middleware \<Rightarrow> hres \<Rightarrow> lineB req \<Rightarrow> bool" where
  "endedB m x r =
     (admittedB m r [Finished x, Recv Running]
    \<or> (case OverloadHandler m of
          None \<Rightarrow> x = Panics \<and> rejectedB m r [Nil_deref]
        | Some oh \<Rightarrow> rejectedB m r [Invoke_overload oh, Finished x]))"

definition traceB :: "Middleware \<Rightarrow> lineB req \<Rightarrow> bool" where
  "traceB m r =
     (case pc r of At l \<Rightarrow> atB m l r | Returned \<Rightarrow> endedB m Returns r
                 | Panicked \<Rightarrow> endedB m Panics r)"

text \<open>The fields of the middleware that no step changes, the two pools by name, and the
  invariant of a system: every request satisfies \<open>P\<close>, and the occupancy of each pool is
  the number of permits the requests hold.\<close>

definition same_cfg :: "Middleware \<Rightarrow> Middleware \<Rightarrow> bool" where
  "same_cfg m m' =
     (cap (running m') = cap (running m) \<and> cap (queue m') = cap (queue m) \<and>
      handler m' = handler m \<and> MaxWaitInQueue m' = MaxWaitInQueue m \<and>
      OverloadHandler m' = OverloadHandler m)"

fun chan_of :: "pool \<Rightarrow> Middleware \<Rightarrow> chan" where
  "chan_of Running m = running m"
| "chan_of Queue m = queue m"

definition bounded :: "Middleware \<Rightarrow> bool" where
  "bounded m = (len (running m) \<le> cap (running m) \<and> len (queue m) \<le> cap (queue m))"

definition fresh :: "Middleware \<Rightarrow> bool" where
  "fresh m = (len (running m) = 0 \<and> len (queue m) = 0)"

definition ginv :: "('l req \<Rightarrow> bool) \<Rightarrow> Middleware \<Rightarrow> 'l sys \<Rightarrow> bool" where
  "ginv P m0 s =
     (same_cfg m0 (mw s) \<and> bounded (mw s) \<and> list_all P (reqs s) \<and>
      len (running (mw s)) = total (held Running) s \<and>
      len (queue (mw s)) = total (held Queue) s)"

definition local_ok ::
  "('l req \<Rightarrow> bool) \<Rightarrow> Middleware \<Rightarrow>
   (Middleware \<Rightarrow> 'l req \<Rightarrow> lact \<Rightarrow> (Middleware \<times> 'l req) option) \<Rightarrow> bool" where
  "local_ok P m0 lstep =
     (\<forall>m r a m' r'. same_cfg m0 m \<longrightarrow> P r \<longrightarrow> lstep m r a = Some (m', r') \<longrightarrow>
        P r' \<and> same_cfg m0 m' \<and> (bounded m \<longrightarrow> bounded m') \<and>
        (\<forall>p. len (chan_of p m') + held p (hist r) = len (chan_of p m) + held p (hist r')))"

definition env_ok :: "('l req \<Rightarrow> bool) \<Rightarrow> bool" where
  "env_ok P = (\<forall>r. P r \<longrightarrow> P (cancel r) \<and> (\<forall>r'. fire r = Some r' \<longrightarrow> P r'))"

section \<open>Reachable states satisfy the invariants\<close>

lemmas req_defs = emit_def goto_def new_timer_def stop_timer_def recv_timeout_def
  tm_def st_def timer_ok_def disarmed_def fastA_def delayedA_def timeoutA_def

lemma case_unwind [simp]:
  "(case unwind x of At l \<Rightarrow> f l | Returned \<Rightarrow> a | Panicked \<Rightarrow> b) =
   (case x of Returns \<Rightarrow> a | Panics \<Rightarrow> b)"
  by (cases x) simp_all

lemma lact_cases:
  obtains "a = Next" | "a = Take SlotFree" | "a = Take DeadlineFired" | "a = Take Cancelled"
    | x where "a = Handler x"
proof (cases a)
  case (Take c)
  then show ?thesis using that by (cases c) auto
qed (use that in auto)

lemma stepA_trace:
  assumes "same_cfg m0 m" "traceA m0 r" "ServeHTTP_step m r a = Some (m', r')"
  shows "traceA m0 r'"
  using assms
  apply (cases "pc r")
  subgoal for l
    apply (cases l; cases a rule: lact_cases)
    apply (auto simp: ServeHTTP_step_def traceA_def same_cfg_def endedA_def overloadHandler_def req_defs
         split: if_splits option.splits race.splits hres.splits)
    done
  apply (auto simp: ServeHTTP_step_def)
  done

lemmas hist_defs = held_def acquired_def released_def

lemma all_pool: "(\<forall>p. P p) = (P Running \<and> P Queue)"
  by (metis pool.exhaust)

lemma stepA_balance:
  assumes "same_cfg m0 m" "traceA m0 r" "ServeHTTP_step m r a = Some (m', r')"
  shows "same_cfg m0 m' \<and> (bounded m \<longrightarrow> bounded m') \<and>
         (\<forall>p. len (chan_of p m') + held p (hist r) = len (chan_of p m) + held p (hist r'))"
proof (cases "pc r")
  case (At l)
  show ?thesis using assms At
    by (cases l; cases a rule: lact_cases)
       (auto simp: ServeHTTP_step_def traceA_def same_cfg_def bounded_def hist_defs
              can_send_def can_recv_def send_def recv_def req_defs all_pool
              split: if_splits option.splits)
qed (use assms in \<open>auto simp: ServeHTTP_step_def\<close>)

lemma envA: "traceA m0 r \<Longrightarrow> traceA m0 (cancel r) \<and> (\<forall>r'. fire r = Some r' \<longrightarrow> traceA m0 r')"
  apply (cases "pc r")
  subgoal for l
    by (cases l) (auto simp: traceA_def cancel_def fire_def req_defs split: option.splits if_splits)
  by (auto simp: traceA_def endedA_def cancel_def fire_def req_defs split: option.splits if_splits)

lemma sum_list_map_update:
  "i < length xs \<Longrightarrow>
   sum_list (map f (xs[i := y])) + f (xs ! i) = sum_list (map f xs) + (f y :: nat)"
proof (induction xs arbitrary: i)
  case Nil
  then show ?case by simp
next
  case (Cons x xs)
  then show ?case by (cases i) auto
qed

lemma list_all_update:
  "list_all P xs \<Longrightarrow> P y \<Longrightarrow> list_all P (xs[i := y])"
  by (induction xs arbitrary: i) (auto split: nat.splits)

lemma total_update:
  "i < length (reqs s) \<Longrightarrow>
   total f \<lparr>mw = m, reqs = (reqs s)[i := r']\<rparr> + f (hist (reqs s ! i)) = total f s + f (hist r')"
  unfolding total_def by (simp add: sum_list_map_update [where f = "\<lambda>r. f (hist r)"])

lemma total_same_hist:
  assumes "i < length (reqs s)" "hist r' = hist (reqs s ! i)"
  shows "total f \<lparr>mw = m, reqs = (reqs s)[i := r']\<rparr> = total f s"
  using total_update [OF assms(1), of f m r'] assms(2) by simp

lemma fire_hist: "fire r = Some r' \<Longrightarrow> hist r' = hist r"
  by (auto simp: fire_def split: option.splits if_splits)

lemma sys_step_ginv:
  assumes loc: "local_ok P m0 lstep" and env: "env_ok P"
    and inv: "ginv P m0 s" and step: "sys_step lstep s a = Some s'"
  shows "ginv P m0 s'"
proof (cases a)
  case (Req i la)
  with step obtain m' r' where
    i: "i < length (reqs s)" and l: "lstep (mw s) (reqs s ! i) la = Some (m', r')"
    and s': "s' = \<lparr>mw = m', reqs = (reqs s)[i := r']\<rparr>"
    by (auto split: if_splits option.splits)
  from inv i have P: "P (reqs s ! i)" by (simp add: ginv_def list_all_length)
  from inv have cfg: "same_cfg m0 (mw s)" and b: "bounded (mw s)" by (simp_all add: ginv_def)
  from loc cfg P l have P': "P r'" and cfg': "same_cfg m0 m'" and b': "bounded m'"
    and bal: "\<And>p. len (chan_of p m') + held p (hist (reqs s ! i)) =
                 len (chan_of p (mw s)) + held p (hist r')"
    using b unfolding local_ok_def by blast+
  have "len (chan_of p m') = total (held p) s'" for p
  proof -
    have "len (chan_of p (mw s)) = total (held p) s"
      using inv by (cases p) (simp_all add: ginv_def)
    with bal [of p] total_update [OF i, of "held p" m' r'] show ?thesis
      by (simp add: s')
  qed
  from this [of Running] this [of Queue] P' cfg' b' inv show ?thesis
    by (simp add: ginv_def s' list_all_update)
next
  case (Fire i)
  with step obtain r' where
    i: "i < length (reqs s)" and f: "fire (reqs s ! i) = Some r'"
    and s': "s' = \<lparr>mw = mw s, reqs = (reqs s)[i := r']\<rparr>"
    by (auto split: if_splits option.splits)
  from inv i have "P (reqs s ! i)" by (simp add: ginv_def list_all_length)
  with env f have "P r'" unfolding env_ok_def by blast
  with inv total_same_hist [OF i fire_hist [OF f]] show ?thesis
    by (simp add: ginv_def s' list_all_update)
next
  case (CtxCancel i)
  with step have
    i: "i < length (reqs s)"
    and s': "s' = \<lparr>mw = mw s, reqs = (reqs s)[i := cancel (reqs s ! i)]\<rparr>"
    by (auto split: if_splits)
  from inv i have "P (reqs s ! i)" by (simp add: ginv_def list_all_length)
  with env have "P (cancel (reqs s ! i))" unfolding env_ok_def by blast
  moreover have "hist (cancel (reqs s ! i)) = hist (reqs s ! i)" by (simp add: cancel_def)
  ultimately show ?thesis using inv total_same_hist [OF i]
    by (simp add: ginv_def s' list_all_update)
qed

lemma run_ginv:
  assumes "local_ok P m0 lstep" "env_ok P"
  shows "ginv P m0 s \<Longrightarrow> run lstep s acts = Some s' \<Longrightarrow> ginv P m0 s'"
proof (induction acts arbitrary: s)
  case Nil
  then show ?case by simp
next
  case (Cons a acts)
  then show ?case
    using sys_step_ginv [OF assms] by (auto split: option.splits)
qed

lemma init_ginv:
  assumes "fresh m0" "P (arrive l)"
  shows "ginv P m0 (init m0 l n)"
  using assms
  by (auto simp: ginv_def init_def fresh_def same_cfg_def bounded_def total_def
        list_all_iff arrive_def hist_defs)

lemma reachA:
  assumes "fresh m0" "run ServeHTTP_step (init m0 L58 n) acts = Some s"
  shows "ginv (traceA m0) m0 s"
proof -
  have "local_ok (traceA m0) m0 ServeHTTP_step"
    unfolding local_ok_def using stepA_trace stepA_balance by blast
  moreover have "env_ok (traceA m0)"
    unfolding env_ok_def using envA by blast
  moreover have "ginv (traceA m0) m0 (init m0 L58 n)"
    by (rule init_ginv [OF assms(1)]) (simp add: traceA_def arrive_def)
  ultimately show ?thesis using run_ginv assms(2) by blast
qed

lemmas reqB_defs = req_defs wokenB_def admittedB_def rejectedB_def deferred_def

lemma stepB_trace:
  assumes "same_cfg m0 m" "traceB m0 r" "ServeHTTP2_step m r a = Some (m', r')"
  shows "traceB m0 r'"
  using assms
  apply (cases "pc r")
  subgoal for l
    apply (cases l; cases a rule: lact_cases)
    apply (auto simp: ServeHTTP2_step_def traceB_def same_cfg_def endedB_def reqB_defs
         split: if_splits option.splits hres.splits bool.splits)
    done
  apply (auto simp: ServeHTTP2_step_def)
  done

lemma stepB_balance:
  assumes "same_cfg m0 m" "traceB m0 r" "ServeHTTP2_step m r a = Some (m', r')"
  shows "same_cfg m0 m' \<and> (bounded m \<longrightarrow> bounded m') \<and>
         (\<forall>p. len (chan_of p m') + held p (hist r) = len (chan_of p m) + held p (hist r'))"
proof (cases "pc r")
  case (At l)
  show ?thesis using assms At
    by (cases l; cases a rule: lact_cases)
       (auto simp: ServeHTTP2_step_def traceB_def same_cfg_def bounded_def hist_defs
              can_send_def can_recv_def send_def recv_def reqB_defs all_pool
              split: if_splits option.splits bool.splits)
qed (use assms in \<open>auto simp: ServeHTTP2_step_def\<close>)

lemma envB: "traceB m0 r \<Longrightarrow> traceB m0 (cancel r) \<and> (\<forall>r'. fire r = Some r' \<longrightarrow> traceB m0 r')"
  apply (cases "pc r")
  subgoal for l
    by (cases l) (auto simp: traceB_def cancel_def fire_def reqB_defs split: option.splits if_splits)
  by (auto simp: traceB_def endedB_def cancel_def fire_def reqB_defs split: option.splits if_splits)

lemma reachB:
  assumes "fresh m0" "run ServeHTTP2_step (init m0 L226 n) acts = Some s"
  shows "ginv (traceB m0) m0 s"
proof -
  have "local_ok (traceB m0) m0 ServeHTTP2_step"
    unfolding local_ok_def using stepB_trace stepB_balance by blast
  moreover have "env_ok (traceB m0)"
    unfolding env_ok_def using envB by blast
  moreover have "ginv (traceB m0) m0 (init m0 L226 n)"
    by (rule init_ginv [OF assms(1)]) (simp add: traceB_def arrive_def)
  ultimately show ?thesis using run_ginv assms(2) by blast
qed



section \<open>The pools stay within their capacities\<close>

lemma New_configure:
  assumes "New mr mq h = Inr m"
  shows "fresh (configure d oh m)" "cap (running (configure d oh m)) = nat mr"
    "cap (queue (configure d oh m)) = nat mq" "0 \<le> mr" "0 \<le> mq"
    "MaxWaitInQueue (configure d oh m) = d" "OverloadHandler (configure d oh m) = oh"
    "handler (configure d oh m) = h"
  using assms
  by (auto simp: New_def make_chan_def fresh_def configure_def split: if_splits)

lemma New2_configure:
  assumes "New2 mr mq h = Inr m"
  shows "fresh (configure d oh m)" "cap (running (configure d oh m)) = nat mr"
    "cap (queue (configure d oh m)) = nat mq" "0 \<le> mr" "0 \<le> mq"
    "MaxWaitInQueue (configure d oh m) = d" "OverloadHandler (configure d oh m) = oh"
    "handler (configure d oh m) = h"
  using assms
  by (auto simp: New2_def make_chan_def fresh_def configure_def split: if_splits)

lemma ginv_bounds:
  assumes "ginv P m0 s" "cap (running m0) = nat mr" "cap (queue m0) = nat mq"
    "0 \<le> mr" "0 \<le> mq"
  shows "int (len (running (mw s))) \<le> mr \<and> int (len (queue (mw s))) \<le> mq"
proof -
  from assms(1) have "len (running (mw s)) \<le> cap (running m0)"
    "len (queue (mw s)) \<le> cap (queue m0)"
    by (simp_all add: ginv_def same_cfg_def bounded_def)
  with assms(2-) show ?thesis by linarith
qed

text \<open>
  Claim C3.  In every reachable state of a middleware made by \<open>New\<close>, whatever the
  number of requests and their interleaving, the running pool holds at most
  \<open>maxRunning\<close> permits and the queue pool at most \<open>maxInQueue\<close>; for both
  implementations.
\<close>

theorem occupancy_within_capacity:
  "(New maxRunning maxInQueue h = Inr m \<longrightarrow>
    run ServeHTTP_step (init (configure d oh m) L58 n) acts = Some s \<longrightarrow>
      int (len (running (mw s))) \<le> maxRunning \<and> int (len (queue (mw s))) \<le> maxInQueue) \<and>
   (New2 maxRunning maxInQueue h = Inr m2 \<longrightarrow>
    run ServeHTTP2_step (init (configure d oh m2) L226 n) acts2 = Some s2 \<longrightarrow>
      int (len (running (mw s2))) \<le> maxRunning \<and> int (len (queue (mw s2))) \<le> maxInQueue)"
proof -
  have "int (len (running (mw s))) \<le> maxRunning \<and> int (len (queue (mw s))) \<le> maxInQueue"
    if n: "New maxRunning maxInQueue h = Inr m"
      and r: "run ServeHTTP_step (init (configure d oh m) L58 n) acts = Some s"
    by (rule ginv_bounds [OF reachA [OF New_configure(1) [OF n] r] New_configure(2-5) [OF n]])
  moreover
  have "int (len (running (mw s2))) \<le> maxRunning \<and> int (len (queue (mw s2))) \<le> maxInQueue"
    if n: "New2 maxRunning maxInQueue h = Inr m2"
      and r: "run ServeHTTP2_step (init (configure d oh m2) L226 n) acts2 = Some s2"
    by (rule ginv_bounds [OF reachB [OF New2_configure(1) [OF n] r] New2_configure(2-5) [OF n]])
  ultimately show ?thesis by blast
qed

lemmas run_defs = ServeHTTP_step_def ServeHTTP2_step_def init_def arrive_def configure_def
  emit_def goto_def can_send_def can_recv_def send_def recv_def new_timer_def stop_timer_def
  recv_timeout_def fire_def cancel_def deferred_def New_def New2_def make_chan_def
  overloadHandler_def

theorem occupancy_within_capacity_witness:
  "run ServeHTTP_step (init (configure 0 None (projr (New 1 1 (UserHandler 0)))) L58 3)
     [Req 0 Next, Req 1 Next, Req 1 Next, Req 2 Next, Req 2 Next] \<noteq> None \<and>
   int (len (running (mw (the (run ServeHTTP_step
     (init (configure 0 None (projr (New 1 1 (UserHandler 0)))) L58 3)
     [Req 0 Next, Req 1 Next, Req 1 Next, Req 2 Next, Req 2 Next]))))) \<le> 1 \<and>
   int (len (queue (mw (the (run ServeHTTP_step
     (init (configure 0 None (projr (New 1 1 (UserHandler 0)))) L58 3)
     [Req 0 Next, Req 1 Next, Req 1 Next, Req 2 Next, Req 2 Next]))))) \<le> 1 \<and>
   run ServeHTTP2_step (init (configure 0 None (projr (New2 1 1 (UserHandler 0)))) L226 3)
     [Req 0 Next, Req 1 Next, Req 1 Next, Req 2 Next, Req 2 Next] \<noteq> None \<and>
   int (len (running (mw (the (run ServeHTTP2_step
     (init (configure 0 None (projr (New2 1 1 (UserHandler 0)))) L226 3)
     [Req 0 Next, Req 1 Next, Req 1 Next, Req 2 Next, Req 2 Next]))))) \<le> 1 \<and>
   int (len (queue (mw (the (run ServeHTTP2_step
     (init (configure 0 None (projr (New2 1 1 (UserHandler 0)))) L226 3)
     [Req 0 Next, Req 1 Next, Req 1 Next, Req 2 Next, Req 2 Next]))))) \<le> 1"
proof -
  let ?m = "projr (New 1 1 (UserHandler 0))"
  let ?m2 = "projr (New2 1 1 (UserHandler 0))"
  let ?acts = "[Req 0 Next, Req 1 Next, Req 1 Next, Req 2 Next, Req 2 Next]"
  have n: "New 1 1 (UserHandler 0) = Inr ?m" by (simp add: New_def make_chan_def)
  have n2: "New2 1 1 (UserHandler 0) = Inr ?m2" by (simp add: New2_def make_chan_def)
  have "run ServeHTTP_step (init (configure 0 None ?m) L58 3) ?acts \<noteq> None"
    by (simp add: run_defs eval_nat_numeral)
  then obtain s where r: "run ServeHTTP_step (init (configure 0 None ?m) L58 3) ?acts = Some s"
    by blast
  have "run ServeHTTP2_step (init (configure 0 None ?m2) L226 3) ?acts \<noteq> None"
    by (simp add: run_defs eval_nat_numeral)
  then obtain s2 where
    r2: "run ServeHTTP2_step (init (configure 0 None ?m2) L226 3) ?acts = Some s2"
    by blast
  from occupancy_within_capacity [of 1 1 "UserHandler 0" ?m 0 None 3 ?acts s ?m2 ?acts s2]
    n r n2 r2
  have c: "int (len (running (mw s))) \<le> 1" "int (len (queue (mw s))) \<le> 1"
    "int (len (running (mw s2))) \<le> 1" "int (len (queue (mw s2))) \<le> 1"
    by blast+
  show ?thesis by (simp only: r r2 option.sel option.distinct c simp_thms)
qed

section \<open>Permits are released exactly once\<close>

lemmas prop_defs = at_most_once_def all_released_def one_exit_def exits_def terminated_def
  observe_def before_def from_on_def

lemma traceA_permits:
  "traceA m r \<Longrightarrow>
   at_most_once (hist r) \<and> (terminated r \<longrightarrow> all_released (hist r) \<and> one_exit (hist r))"
  apply (cases "pc r")
  subgoal for l
    by (cases l) (auto simp: traceA_def prop_defs hist_defs req_defs split: option.splits)
  by (auto simp: traceA_def endedA_def prop_defs hist_defs req_defs split: option.splits)

lemma traceB_permits:
  "traceB m r \<Longrightarrow>
   at_most_once (hist r) \<and> (terminated r \<longrightarrow> all_released (hist r) \<and> one_exit (hist r))"
  apply (cases "pc r")
  subgoal for l
    by (cases l)
       (auto simp: traceB_def prop_defs hist_defs reqB_defs split: option.splits if_splits)
  by (auto simp: traceB_def endedB_def prop_defs hist_defs reqB_defs
        split: option.splits if_splits)

lemma sum_list_map_eq:
  "\<forall>x \<in> set xs. f x = g x \<Longrightarrow> sum_list (map f xs) = (sum_list (map g xs) :: nat)"
  by (induction xs) auto

lemma nth_le_sum_list:
  "i < length xs \<Longrightarrow> f (xs ! i) \<le> (sum_list (map f xs) :: nat)"
proof (induction xs arbitrary: i)
  case Nil
  then show ?case by simp
next
  case (Cons x xs)
  then show ?case by (cases i) (auto intro: trans_le_add2)
qed

lemma quiescent_totals:
  assumes "\<forall>r \<in> set (reqs s). terminated r \<longrightarrow> all_released (hist r)" "quiescent s"
  shows "total (acquired p) s = total (released p) s \<and> total (held p) s = 0"
proof -
  from assms have "\<forall>r \<in> set (reqs s). acquired p (hist r) = released p (hist r)"
    by (cases p) (auto simp: quiescent_def list_all_iff all_released_def)
  then show ?thesis
    unfolding total_def
    using sum_list_map_eq [of "reqs s" "\<lambda>r. acquired p (hist r)" "\<lambda>r. released p (hist r)"]
      sum_list_map_eq [of "reqs s" "\<lambda>r. held p (hist r)" "\<lambda>r. 0"]
    by (simp add: held_def)
qed

lemma held_le_total:
  assumes "i < length (reqs s)"
  shows "f (hist (reqs s ! i)) \<le> total f s"
  unfolding total_def using assms by (rule nth_le_sum_list)

lemma enabledA:
  assumes inv: "ginv (traceA m0) m0 s" and i: "i < length (reqs s)"
    and nt: "\<not> terminated (reqs s ! i)" and ns: "pc (reqs s ! i) \<noteq> At L92"
  shows "enabled ServeHTTP_step s i"
proof -
  from inv i have t: "traceA m0 (reqs s ! i)" by (simp add: ginv_def list_all_length)
  from inv held_le_total [OF i, of "held Running"] held_le_total [OF i, of "held Queue"]
  have h: "held Running (hist (reqs s ! i)) \<le> len (running (mw s))"
    "held Queue (hist (reqs s ! i)) \<le> len (queue (mw s))"
    by (simp_all add: ginv_def)
  from nt obtain l where l: "pc (reqs s ! i) = At l"
    by (cases "pc (reqs s ! i)") (auto simp: terminated_def)
  show ?thesis using t h i l ns
    by (cases l)
       (auto simp: enabled_def lacts_def ServeHTTP_step_def traceA_def hist_defs req_defs
          can_recv_def split: option.splits)
qed

lemma enabledB:
  assumes inv: "ginv (traceB m0) m0 s" and i: "i < length (reqs s)"
    and nt: "\<not> terminated (reqs s ! i)" and ns: "pc (reqs s ! i) \<noteq> At L249"
  shows "enabled ServeHTTP2_step s i"
proof -
  from inv i have t: "traceB m0 (reqs s ! i)" by (simp add: ginv_def list_all_length)
  from inv held_le_total [OF i, of "held Running"] held_le_total [OF i, of "held Queue"]
  have h: "held Running (hist (reqs s ! i)) \<le> len (running (mw s))"
    "held Queue (hist (reqs s ! i)) \<le> len (queue (mw s))"
    by (simp_all add: ginv_def)
  from nt obtain l where l: "pc (reqs s ! i) = At l"
    by (cases "pc (reqs s ! i)") (auto simp: terminated_def)
  show ?thesis using t h i l ns
    by (cases l)
       (auto simp: enabled_def lacts_def ServeHTTP2_step_def traceB_def hist_defs reqB_defs
          can_recv_def split: option.splits if_splits)
qed

lemma ginv_leak_free:
  assumes inv: "ginv P m0 s"
    and P: "\<And>r. P r \<Longrightarrow> at_most_once (hist r) \<and>
                (terminated r \<longrightarrow> all_released (hist r) \<and> one_exit (hist r))"
    and en: "\<And>i. i < length (reqs s) \<Longrightarrow> \<not> terminated (reqs s ! i) \<Longrightarrow>
                pc (reqs s ! i) \<noteq> At sel \<Longrightarrow> enabled lstep s i"
  shows "leak_free lstep sel s"
proof -
  from inv have all: "\<forall>r \<in> set (reqs s). P r" by (simp add: ginv_def list_all_iff)
  with P have 1: "\<forall>r \<in> set (reqs s). at_most_once (hist r) \<and>
                (terminated r \<longrightarrow> all_released (hist r) \<and> one_exit (hist r))" by blast
  then have "\<forall>r \<in> set (reqs s). terminated r \<longrightarrow> all_released (hist r)" by blast
  from quiescent_totals [OF this] inv
  have "quiescent s \<Longrightarrow>
          total (acquired Running) s = total (released Running) s \<and>
          total (acquired Queue) s = total (released Queue) s \<and>
          len (running (mw s)) = 0 \<and> len (queue (mw s)) = 0"
    by (simp add: ginv_def)
  with 1 en show ?thesis unfolding leak_free_def by blast
qed

text \<open>
  Claim C1.  In every reachable state of either implementation, for any number of
  requests and any interleaving: every request has acquired each permit at most once,
  a finished request has released exactly what it acquired and has left by exactly one of
  the four exits (after the handler, after the deadline, after a cancellation, or
  rejected at once with no permit ever acquired), no release can block, and at quiescence
  the acquisitions of running permits equal the releases and the pools are empty.  A
  handler that panics still gives its running permit back, by the deferred receive.
\<close>

theorem permits_released_exactly_once:
  "(New maxRunning maxInQueue h = Inr m \<longrightarrow>
    run ServeHTTP_step (init (configure d oh m) L58 n) acts = Some s \<longrightarrow>
      leak_free ServeHTTP_step L92 s) \<and>
   (New2 maxRunning maxInQueue h = Inr m2 \<longrightarrow>
    run ServeHTTP2_step (init (configure d oh m2) L226 n) acts2 = Some s2 \<longrightarrow>
      leak_free ServeHTTP2_step L249 s2)"
proof -
  have "leak_free ServeHTTP_step L92 s"
    if n: "New maxRunning maxInQueue h = Inr m"
      and r: "run ServeHTTP_step (init (configure d oh m) L58 n) acts = Some s"
  proof -
    note inv = reachA [OF New_configure(1) [OF n] r]
    show ?thesis
      by (rule ginv_leak_free [OF inv traceA_permits enabledA [OF inv]])
  qed
  moreover
  have "leak_free ServeHTTP2_step L249 s2"
    if n: "New2 maxRunning maxInQueue h = Inr m2"
      and r: "run ServeHTTP2_step (init (configure d oh m2) L226 n) acts2 = Some s2"
  proof -
    note inv = reachB [OF New2_configure(1) [OF n] r]
    show ?thesis
      by (rule ginv_leak_free [OF inv traceB_permits enabledB [OF inv]])
  qed
  ultimately show ?thesis by blast
qed

theorem permits_released_exactly_once_witness:
  "run ServeHTTP_step (init (configure 5 None (projr (New 1 1 (UserHandler 0)))) L58 3)
     schedule3 \<noteq> None \<and>
   quiescent (the (run ServeHTTP_step
     (init (configure 5 None (projr (New 1 1 (UserHandler 0)))) L58 3) schedule3)) \<and>
   leak_free ServeHTTP_step L92 (the (run ServeHTTP_step
     (init (configure 5 None (projr (New 1 1 (UserHandler 0)))) L58 3) schedule3)) \<and>
   run ServeHTTP2_step (init (configure 5 (Some DefaultOverloadHandler) (projr (New2 1 1 (UserHandler 0)))) L226 3)
     schedule3 \<noteq> None \<and>
   quiescent (the (run ServeHTTP2_step
     (init (configure 5 (Some DefaultOverloadHandler) (projr (New2 1 1 (UserHandler 0)))) L226 3) schedule3)) \<and>
   leak_free ServeHTTP2_step L249 (the (run ServeHTTP2_step
     (init (configure 5 (Some DefaultOverloadHandler) (projr (New2 1 1 (UserHandler 0)))) L226 3) schedule3))"
proof -
  let ?m = "projr (New 1 1 (UserHandler 0))"
  let ?m2 = "projr (New2 1 1 (UserHandler 0))"
  let ?r = "run ServeHTTP_step (init (configure 5 None ?m) L58 3) schedule3"
  let ?r2 = "run ServeHTTP2_step (init (configure 5 (Some DefaultOverloadHandler) ?m2) L226 3) schedule3"
  have n: "New 1 1 (UserHandler 0) = Inr ?m" by (simp add: New_def make_chan_def)
  have n2: "New2 1 1 (UserHandler 0) = Inr ?m2" by (simp add: New2_def make_chan_def)
  have q: "?r \<noteq> None \<and> quiescent (the ?r)"
    by (simp add: run_defs schedule3_def quiescent_def terminated_def eval_nat_numeral)
  then obtain s where r: "?r = Some s" by blast
  have q2: "?r2 \<noteq> None \<and> quiescent (the ?r2)"
    by (simp add: run_defs schedule3_def quiescent_def terminated_def eval_nat_numeral)
  then obtain s2 where r2: "?r2 = Some s2" by blast
  from permits_released_exactly_once
         [of 1 1 "UserHandler 0" ?m 5 None 3 schedule3 s] n r
       permits_released_exactly_once
         [of 1 1 "UserHandler 0" _ 5 "Some DefaultOverloadHandler" 3 _ _ ?m2 schedule3 s2] n2 r2
  have c: "leak_free ServeHTTP_step L92 s" "leak_free ServeHTTP2_step L249 s2"
    by blast+
  from q q2 show ?thesis by (simp only: r r2 option.sel option.distinct c simp_thms)
qed

section \<open>What the invariants say about one request\<close>

lemma reach_all:
  "ginv P m0 s \<Longrightarrow> r \<in> set (reqs s) \<Longrightarrow> P r"
  by (simp add: ginv_def list_all_iff)

lemma traceA_rejected: "traceA m r \<Longrightarrow> rejected_holds_nothing r"
  apply (cases "pc r")
  subgoal for l
    by (cases l)
       (auto simp: traceA_def rejected_holds_nothing_def prop_defs hist_defs req_defs
          split: option.splits)
  by (auto simp: traceA_def endedA_def rejected_holds_nothing_def prop_defs hist_defs req_defs
        split: option.splits)

lemma traceB_rejected: "traceB m r \<Longrightarrow> rejected_holds_nothing r"
  apply (cases "pc r")
  subgoal for l
    by (cases l)
       (auto simp: traceB_def rejected_holds_nothing_def prop_defs hist_defs reqB_defs
          split: option.splits if_splits)
  by (auto simp: traceB_def endedB_def rejected_holds_nothing_def prop_defs hist_defs reqB_defs
        split: option.splits if_splits)

lemma traceA_one_permit: "traceA m r \<Longrightarrow> one_permit_at_a_time r"
  apply (cases "pc r")
  subgoal for l
    by (cases l)
       (auto simp: traceA_def one_permit_at_a_time_def prop_defs hist_defs req_defs
          split: option.splits)
  by (auto simp: traceA_def endedA_def one_permit_at_a_time_def prop_defs hist_defs req_defs
        split: option.splits)

lemma traceB_one_permit: "traceB m r \<Longrightarrow> one_permit_at_a_time r"
  apply (cases "pc r")
  subgoal for l
    by (cases l)
       (auto simp: traceB_def one_permit_at_a_time_def prop_defs hist_defs reqB_defs
          split: option.splits if_splits)
  by (auto simp: traceB_def endedB_def one_permit_at_a_time_def prop_defs hist_defs reqB_defs
        split: option.splits if_splits)

lemma traceA_timer: "traceA m r \<Longrightarrow> timer_stopped r"
  apply (cases "pc r")
  subgoal for l
    by (cases l)
       (auto simp: traceA_def timer_stopped_def prop_defs disarmed_def req_defs
          split: option.splits)
  by (auto simp: traceA_def endedA_def timer_stopped_def prop_defs disarmed_def req_defs
        split: option.splits)

lemma traceB_timer: "traceB m r \<Longrightarrow> timer_stopped r"
  apply (cases "pc r")
  subgoal for l
    by (cases l)
       (auto simp: traceB_def timer_stopped_def prop_defs disarmed_def reqB_defs
          split: option.splits if_splits)
  by (auto simp: traceB_def endedB_def timer_stopped_def prop_defs disarmed_def reqB_defs
        split: option.splits if_splits)

lemma traceA_cancelled:
  "traceA m r \<Longrightarrow> cancelled r \<Longrightarrow> queue_permit_returned r \<and> observe (hist r) = No_response"
  apply (cases "pc r")
  by (auto simp: traceA_def endedA_def cancelled_def queue_permit_returned_def prop_defs
        hist_defs disarmed_def req_defs split: option.splits)

lemma traceB_cancelled:
  "traceB m r \<Longrightarrow> cancelled r \<Longrightarrow>
   queue_permit_returned r \<and>
   (case OverloadHandler m of
      None \<Rightarrow> pc r = Panicked \<and> last (hist r) = Nil_deref
    | Some oh \<Rightarrow> observe (hist r) = Overload_invoked \<and> Invoke_overload oh \<in> set (hist r))"
  apply (cases "pc r")
  by (auto simp: traceB_def endedB_def cancelled_def queue_permit_returned_def prop_defs
        hist_defs disarmed_def reqB_defs split: option.splits if_splits)

section \<open>Claims about the requests of a reachable state\<close>

lemma reach_list_all:
  assumes "ginv P m0 s" "\<And>r. P r \<Longrightarrow> Q r"
  shows "list_all Q (reqs s)"
  using assms by (auto simp: ginv_def list_all_iff)

text \<open>
  Claim C4.  In every reachable state of either implementation, for every request: if the
  overload handler has been invoked, the request had released every permit it had
  acquired before the invocation and performs no operation on a pool from the invocation
  on; and a request that has ended without its handler having been invoked (rejected at
  once, after the deadline, or after a cancellation) holds no permit.
\<close>

theorem responder_runs_without_permits:
  "(New maxRunning maxInQueue h = Inr m \<longrightarrow>
    run ServeHTTP_step (init (configure d oh m) L58 n) acts = Some s \<longrightarrow>
      list_all rejected_holds_nothing (reqs s)) \<and>
   (New2 maxRunning maxInQueue h = Inr m2 \<longrightarrow>
    run ServeHTTP2_step (init (configure d oh m2) L226 n) acts2 = Some s2 \<longrightarrow>
      list_all rejected_holds_nothing (reqs s2))"
proof -
  have "list_all rejected_holds_nothing (reqs s)"
    if n: "New maxRunning maxInQueue h = Inr m"
      and r: "run ServeHTTP_step (init (configure d oh m) L58 n) acts = Some s"
    by (rule reach_list_all [OF reachA [OF New_configure(1) [OF n] r] traceA_rejected])
  moreover
  have "list_all rejected_holds_nothing (reqs s2)"
    if n: "New2 maxRunning maxInQueue h = Inr m2"
      and r: "run ServeHTTP2_step (init (configure d oh m2) L226 n) acts2 = Some s2"
    by (rule reach_list_all [OF reachB [OF New2_configure(1) [OF n] r] traceB_rejected])
  ultimately show ?thesis by blast
qed

theorem responder_runs_without_permits_witness:
  "(run ServeHTTP_step (init (configure 5 None (projr (New 1 1 (UserHandler 0)))) L58 3) schedule3) \<noteq> None \<and>
   list_ex is_invoke_overload (hist (reqs (the (run ServeHTTP_step (init (configure 5 None (projr (New 1 1 (UserHandler 0)))) L58 3) schedule3)) ! 2)) \<and>
   terminated (reqs (the (run ServeHTTP_step (init (configure 5 None (projr (New 1 1 (UserHandler 0)))) L58 3) schedule3)) ! 2) \<and>
   list_all rejected_holds_nothing (reqs (the (run ServeHTTP_step (init (configure 5 None (projr (New 1 1 (UserHandler 0)))) L58 3) schedule3))) \<and>
   (run ServeHTTP2_step (init (configure 5 (Some DefaultOverloadHandler) (projr (New2 1 1 (UserHandler 0)))) L226 3) schedule3) \<noteq> None \<and>
   list_ex is_invoke_overload (hist (reqs (the (run ServeHTTP2_step (init (configure 5 (Some DefaultOverloadHandler) (projr (New2 1 1 (UserHandler 0)))) L226 3) schedule3)) ! 2)) \<and>
   terminated (reqs (the (run ServeHTTP2_step (init (configure 5 (Some DefaultOverloadHandler) (projr (New2 1 1 (UserHandler 0)))) L226 3) schedule3)) ! 2) \<and>
   list_all rejected_holds_nothing (reqs (the (run ServeHTTP2_step (init (configure 5 (Some DefaultOverloadHandler) (projr (New2 1 1 (UserHandler 0)))) L226 3) schedule3)))"
proof -
  let ?m = "projr (New 1 1 (UserHandler 0))"
  let ?m2 = "projr (New2 1 1 (UserHandler 0))"
  let ?r = "run ServeHTTP_step (init (configure 5 None ?m) L58 3) schedule3"
  let ?r2 = "run ServeHTTP2_step (init (configure 5 (Some DefaultOverloadHandler) ?m2) L226 3) schedule3"
  have n: "New 1 1 (UserHandler 0) = Inr ?m" by (simp add: New_def make_chan_def)
  have n2: "New2 1 1 (UserHandler 0) = Inr ?m2" by (simp add: New2_def make_chan_def)
  have q: "?r \<noteq> None \<and> list_ex is_invoke_overload (hist (reqs (the ?r) ! 2)) \<and> terminated (reqs (the ?r) ! 2)"
    by (simp add: run_defs schedule3_def terminated_def eval_nat_numeral)
  then obtain s where r: "?r = Some s" by blast
  have q2: "?r2 \<noteq> None \<and> list_ex is_invoke_overload (hist (reqs (the ?r2) ! 2)) \<and> terminated (reqs (the ?r2) ! 2)"
    by (simp add: run_defs schedule3_def terminated_def eval_nat_numeral)
  then obtain s2 where r2: "?r2 = Some s2" by blast
  from responder_runs_without_permits
         [of 1 1 "UserHandler 0" ?m 5 None 3 schedule3 s] n r
       responder_runs_without_permits
         [of 1 1 "UserHandler 0" _ 5 "Some DefaultOverloadHandler" 3 _ _ ?m2 schedule3 s2] n2 r2
  have c: "list_all rejected_holds_nothing (reqs s)" "list_all rejected_holds_nothing (reqs s2)"
    by blast+
  from q q2 show ?thesis by (simp only: r r2 option.sel option.distinct c simp_thms)
qed

text \<open>
  Claim C5.  In every reachable state of either implementation, every request holds at
  most one queue permit and at most one running permit.  A request is admitted when its
  handler is invoked; for a request promoted from the queue this is after it has
  acquired the running permit, given back the queue permit and stopped its timer
  (the state \<open>Admitted-Delayed\<close> of the specification).  At that moment it holds one
  running permit and no queue permit; from then on it holds no queue permit, and it
  holds exactly one running permit until it ends.
\<close>

theorem one_permit_of_each_kind:
  "(New maxRunning maxInQueue h = Inr m \<longrightarrow>
    run ServeHTTP_step (init (configure d oh m) L58 n) acts = Some s \<longrightarrow>
      list_all one_permit_at_a_time (reqs s)) \<and>
   (New2 maxRunning maxInQueue h = Inr m2 \<longrightarrow>
    run ServeHTTP2_step (init (configure d oh m2) L226 n) acts2 = Some s2 \<longrightarrow>
      list_all one_permit_at_a_time (reqs s2))"
proof -
  have "list_all one_permit_at_a_time (reqs s)"
    if n: "New maxRunning maxInQueue h = Inr m"
      and r: "run ServeHTTP_step (init (configure d oh m) L58 n) acts = Some s"
    by (rule reach_list_all [OF reachA [OF New_configure(1) [OF n] r] traceA_one_permit])
  moreover
  have "list_all one_permit_at_a_time (reqs s2)"
    if n: "New2 maxRunning maxInQueue h = Inr m2"
      and r: "run ServeHTTP2_step (init (configure d oh m2) L226 n) acts2 = Some s2"
    by (rule reach_list_all [OF reachB [OF New2_configure(1) [OF n] r] traceB_one_permit])
  ultimately show ?thesis by blast
qed

theorem one_permit_of_each_kind_witness:
  "(run ServeHTTP_step (init (configure 5 None (projr (New 1 2 (UserHandler 0)))) L58 3) schedule_race) \<noteq> None \<and>
   list_ex is_invoke_handler (hist (reqs (the (run ServeHTTP_step (init (configure 5 None (projr (New 1 2 (UserHandler 0)))) L58 3) schedule_race)) ! 1)) \<and>
   acquired Queue (hist (reqs (the (run ServeHTTP_step (init (configure 5 None (projr (New 1 2 (UserHandler 0)))) L58 3) schedule_race)) ! 1)) = 1 \<and>
   list_all one_permit_at_a_time (reqs (the (run ServeHTTP_step (init (configure 5 None (projr (New 1 2 (UserHandler 0)))) L58 3) schedule_race))) \<and>
   (run ServeHTTP2_step (init (configure 5 (Some DefaultOverloadHandler) (projr (New2 1 2 (UserHandler 0)))) L226 3) schedule_race) \<noteq> None \<and>
   list_ex is_invoke_handler (hist (reqs (the (run ServeHTTP2_step (init (configure 5 (Some DefaultOverloadHandler) (projr (New2 1 2 (UserHandler 0)))) L226 3) schedule_race)) ! 1)) \<and>
   acquired Queue (hist (reqs (the (run ServeHTTP2_step (init (configure 5 (Some DefaultOverloadHandler) (projr (New2 1 2 (UserHandler 0)))) L226 3) schedule_race)) ! 1)) = 1 \<and>
   list_all one_permit_at_a_time (reqs (the (run ServeHTTP2_step (init (configure 5 (Some DefaultOverloadHandler) (projr (New2 1 2 (UserHandler 0)))) L226 3) schedule_race)))"
proof -
  let ?m = "projr (New 1 2 (UserHandler 0))"
  let ?m2 = "projr (New2 1 2 (UserHandler 0))"
  let ?r = "run ServeHTTP_step (init (configure 5 None ?m) L58 3) schedule_race"
  let ?r2 = "run ServeHTTP2_step (init (configure 5 (Some DefaultOverloadHandler) ?m2) L226 3) schedule_race"
  have n: "New 1 2 (UserHandler 0) = Inr ?m" by (simp add: New_def make_chan_def)
  have n2: "New2 1 2 (UserHandler 0) = Inr ?m2" by (simp add: New2_def make_chan_def)
  have q: "?r \<noteq> None \<and> list_ex is_invoke_handler (hist (reqs (the ?r) ! 1)) \<and> acquired Queue (hist (reqs (the ?r) ! 1)) = 1"
    by (simp add: run_defs schedule_race_def hist_defs eval_nat_numeral)
  then obtain s where r: "?r = Some s" by blast
  have q2: "?r2 \<noteq> None \<and> list_ex is_invoke_handler (hist (reqs (the ?r2) ! 1)) \<and> acquired Queue (hist (reqs (the ?r2) ! 1)) = 1"
    by (simp add: run_defs schedule_race_def hist_defs eval_nat_numeral)
  then obtain s2 where r2: "?r2 = Some s2" by blast
  from one_permit_of_each_kind
         [of 1 2 "UserHandler 0" ?m 5 None 3 schedule_race s] n r
       one_permit_of_each_kind
         [of 1 2 "UserHandler 0" _ 5 "Some DefaultOverloadHandler" 3 _ _ ?m2 schedule_race s2] n2 r2
  have c: "list_all one_permit_at_a_time (reqs s)" "list_all one_permit_at_a_time (reqs s2)"
    by blast+
  from q q2 show ?thesis by (simp only: r r2 option.sel option.distinct c simp_thms)
qed

text \<open>
  The promotion itself is not atomic: between the send to the running pool (line 93,
  line 250 in the second implementation) and the receive from the queue the request
  holds both permits.  The statement above starts at the end of the promotion.
\<close>

lemma both_permits_during_promotion:
  "history 1 (run ServeHTTP_step (init (configure 0 None (projr (New 1 1 (UserHandler 0)))) L58 2)
     [Req 0 Next, Req 1 Next, Req 1 Next, Req 1 Next, Req 0 (Handler Returns), Req 0 Next,
      Req 1 (Take SlotFree)]) = Some [Send Queue, Send Running] \<and>
   history 1 (run ServeHTTP2_step (init (configure 0 None (projr (New2 1 1 (UserHandler 0)))) L226 2)
     [Req 0 Next, Req 1 Next, Req 1 Next, Req 1 Next, Req 0 (Handler Returns), Req 0 Next,
      Req 1 (Take SlotFree)]) = Some [Send Queue, Send Running]"
  by (simp add: history_def run_defs eval_nat_numeral)

text \<open>
  Claim C8.  In every reachable state of either implementation, for every request that
  made a timer: when its handler is invoked (it was promoted from the queue),
  \<open>timer.Stop()\<close> was called before the invocation and the timer is not armed; and when
  it left the race by the cancellation and has ended, or has gone on to the overload
  handler, \<open>timer.Stop()\<close> was called before and the timer is not armed.
\<close>

theorem timer_stopped_when_race_is_lost:
  "(New maxRunning maxInQueue h = Inr m \<longrightarrow>
    run ServeHTTP_step (init (configure d oh m) L58 n) acts = Some s \<longrightarrow>
      list_all timer_stopped (reqs s)) \<and>
   (New2 maxRunning maxInQueue h = Inr m2 \<longrightarrow>
    run ServeHTTP2_step (init (configure d oh m2) L226 n) acts2 = Some s2 \<longrightarrow>
      list_all timer_stopped (reqs s2))"
proof -
  have "list_all timer_stopped (reqs s)"
    if n: "New maxRunning maxInQueue h = Inr m"
      and r: "run ServeHTTP_step (init (configure d oh m) L58 n) acts = Some s"
    by (rule reach_list_all [OF reachA [OF New_configure(1) [OF n] r] traceA_timer])
  moreover
  have "list_all timer_stopped (reqs s2)"
    if n: "New2 maxRunning maxInQueue h = Inr m2"
      and r: "run ServeHTTP2_step (init (configure d oh m2) L226 n) acts2 = Some s2"
    by (rule reach_list_all [OF reachB [OF New2_configure(1) [OF n] r] traceB_timer])
  ultimately show ?thesis by blast
qed

theorem timer_stopped_when_race_is_lost_witness:
  "(run ServeHTTP_step (init (configure 5 None (projr (New 1 2 (UserHandler 0)))) L58 3) schedule_race) \<noteq> None \<and>
   timer (reqs (the (run ServeHTTP_step (init (configure 5 None (projr (New 1 2 (UserHandler 0)))) L58 3) schedule_race)) ! 1) \<noteq> None \<and>
   list_ex is_invoke_handler (hist (reqs (the (run ServeHTTP_step (init (configure 5 None (projr (New 1 2 (UserHandler 0)))) L58 3) schedule_race)) ! 1)) \<and>
   timer (reqs (the (run ServeHTTP_step (init (configure 5 None (projr (New 1 2 (UserHandler 0)))) L58 3) schedule_race)) ! 2) \<noteq> None \<and>
   Recv_ctx_done \<in> set (hist (reqs (the (run ServeHTTP_step (init (configure 5 None (projr (New 1 2 (UserHandler 0)))) L58 3) schedule_race)) ! 2)) \<and>
   terminated (reqs (the (run ServeHTTP_step (init (configure 5 None (projr (New 1 2 (UserHandler 0)))) L58 3) schedule_race)) ! 2) \<and>
   list_all timer_stopped (reqs (the (run ServeHTTP_step (init (configure 5 None (projr (New 1 2 (UserHandler 0)))) L58 3) schedule_race))) \<and>
   (run ServeHTTP2_step (init (configure 5 (Some DefaultOverloadHandler) (projr (New2 1 2 (UserHandler 0)))) L226 3) schedule_race) \<noteq> None \<and>
   timer (reqs (the (run ServeHTTP2_step (init (configure 5 (Some DefaultOverloadHandler) (projr (New2 1 2 (UserHandler 0)))) L226 3) schedule_race)) ! 1) \<noteq> None \<and>
   list_ex is_invoke_handler (hist (reqs (the (run ServeHTTP2_step (init (configure 5 (Some DefaultOverloadHandler) (projr (New2 1 2 (UserHandler 0)))) L226 3) schedule_race)) ! 1)) \<and>
   timer (reqs (the (run ServeHTTP2_step (init (configure 5 (Some DefaultOverloadHandler) (projr (New2 1 2 (UserHandler 0)))) L226 3) schedule_race)) ! 2) \<noteq> None \<and>
   Recv_ctx_done \<in> set (hist (reqs (the (run ServeHTTP2_step (init (configure 5 (Some DefaultOverloadHandler) (projr (New2 1 2 (UserHandler 0)))) L226 3) schedule_race)) ! 2)) \<and>
   list_ex is_invoke_overload (hist (reqs (the (run ServeHTTP2_step (init (configure 5 (Some DefaultOverloadHandler) (projr (New2 1 2 (UserHandler 0)))) L226 3) schedule_race)) ! 2)) \<and>
   list_all timer_stopped (reqs (the (run ServeHTTP2_step (init (configure 5 (Some DefaultOverloadHandler) (projr (New2 1 2 (UserHandler 0)))) L226 3) schedule_race)))"
proof -
  let ?m = "projr (New 1 2 (UserHandler 0))"
  let ?m2 = "projr (New2 1 2 (UserHandler 0))"
  let ?r = "run ServeHTTP_step (init (configure 5 None ?m) L58 3) schedule_race"
  let ?r2 = "run ServeHTTP2_step (init (configure 5 (Some DefaultOverloadHandler) ?m2) L226 3) schedule_race"
  have n: "New 1 2 (UserHandler 0) = Inr ?m" by (simp add: New_def make_chan_def)
  have n2: "New2 1 2 (UserHandler 0) = Inr ?m2" by (simp add: New2_def make_chan_def)
  have q: "?r \<noteq> None \<and> timer (reqs (the ?r) ! 1) \<noteq> None \<and> list_ex is_invoke_handler (hist (reqs (the ?r) ! 1)) \<and> timer (reqs (the ?r) ! 2) \<noteq> None \<and> Recv_ctx_done \<in> set (hist (reqs (the ?r) ! 2)) \<and> terminated (reqs (the ?r) ! 2)"
    by (simp add: run_defs schedule_race_def terminated_def eval_nat_numeral)
  then obtain s where r: "?r = Some s" by blast
  have q2: "?r2 \<noteq> None \<and> timer (reqs (the ?r2) ! 1) \<noteq> None \<and> list_ex is_invoke_handler (hist (reqs (the ?r2) ! 1)) \<and> timer (reqs (the ?r2) ! 2) \<noteq> None \<and> Recv_ctx_done \<in> set (hist (reqs (the ?r2) ! 2)) \<and> list_ex is_invoke_overload (hist (reqs (the ?r2) ! 2))"
    by (simp add: run_defs schedule_race_def terminated_def eval_nat_numeral)
  then obtain s2 where r2: "?r2 = Some s2" by blast
  from timer_stopped_when_race_is_lost
         [of 1 2 "UserHandler 0" ?m 5 None 3 schedule_race s] n r
       timer_stopped_when_race_is_lost
         [of 1 2 "UserHandler 0" _ 5 "Some DefaultOverloadHandler" 3 _ _ ?m2 schedule_race s2] n2 r2
  have c: "list_all timer_stopped (reqs s)" "list_all timer_stopped (reqs s2)"
    by blast+
  from q q2 show ?thesis by (simp only: r r2 option.sel option.distinct c simp_thms)
qed

section \<open>Cancellation, an empty queue pool and a wait without deadline\<close>

lemma traceA_cancel_silent: "traceA m r \<Longrightarrow> cancel_silent r"
  using traceA_cancelled unfolding cancel_silent_def by blast

lemma traceB_cancel_overload: "traceB m r \<Longrightarrow> cancel_overload (OverloadHandler m) r"
  using traceB_cancelled [of m r] unfolding cancel_overload_def
  by (auto split: option.splits)

text \<open>
  Claim C2, as the code has it.  A request that left the race by the cancellation and
  has ended gave its queue permit back and never held a running permit, and its timer,
  if it made one, was stopped.  In \<open>maxconnections/maxconnections.go\<close> no handler was
  invoked for it: the middleware produced no response.  In the second implementation
  \<open>enqueueRunning\<close> returns \<open>false\<close> after a cancellation as it does after the deadline,
  and \<open>ServeHTTP\<close> then calls the \<open>OverloadHandler\<close> (or panics when that is nil).
\<close>

theorem cancelled_in_queue:
  "(New maxRunning maxInQueue h = Inr m \<longrightarrow>
    run ServeHTTP_step (init (configure d oh m) L58 n) acts = Some s \<longrightarrow>
      list_all cancel_silent (reqs s)) \<and>
   (New2 maxRunning maxInQueue h = Inr m2 \<longrightarrow>
    run ServeHTTP2_step (init (configure d oh m2) L226 n) acts2 = Some s2 \<longrightarrow>
      list_all (cancel_overload oh) (reqs s2))"
proof -
  have "list_all cancel_silent (reqs s)"
    if n: "New maxRunning maxInQueue h = Inr m"
      and r: "run ServeHTTP_step (init (configure d oh m) L58 n) acts = Some s"
    by (rule reach_list_all [OF reachA [OF New_configure(1) [OF n] r] traceA_cancel_silent])
  moreover
  have "list_all (cancel_overload oh) (reqs s2)"
    if n: "New2 maxRunning maxInQueue h = Inr m2"
      and r: "run ServeHTTP2_step (init (configure d oh m2) L226 n) acts2 = Some s2"
  proof -
    have "cancel_overload oh r" if "traceB (configure d oh m2) r" for r
      using traceB_cancel_overload [OF that] by (simp add: configure_def)
    from reach_list_all [OF reachB [OF New2_configure(1) [OF n] r] this]
    show ?thesis .
  qed
  ultimately show ?thesis by blast
qed

theorem cancelled_in_queue_witness:
  "run ServeHTTP_step (init (configure 5 None (projr (New 1 1 (UserHandler 0)))) L58 2)
     schedule_cancel \<noteq> None \<and>
   cancelled (reqs (the (run ServeHTTP_step
     (init (configure 5 None (projr (New 1 1 (UserHandler 0)))) L58 2) schedule_cancel)) ! 1) \<and>
   list_all cancel_silent (reqs (the (run ServeHTTP_step
     (init (configure 5 None (projr (New 1 1 (UserHandler 0)))) L58 2) schedule_cancel))) \<and>
   run ServeHTTP2_step
     (init (configure 5 (Some DefaultOverloadHandler) (projr (New2 1 1 (UserHandler 0)))) L226 2)
     schedule_cancel2 \<noteq> None \<and>
   cancelled (reqs (the (run ServeHTTP2_step
     (init (configure 5 (Some DefaultOverloadHandler) (projr (New2 1 1 (UserHandler 0)))) L226 2)
     schedule_cancel2)) ! 1) \<and>
   list_all (cancel_overload (Some DefaultOverloadHandler)) (reqs (the (run ServeHTTP2_step
     (init (configure 5 (Some DefaultOverloadHandler) (projr (New2 1 1 (UserHandler 0)))) L226 2)
     schedule_cancel2)))"
proof -
  let ?m = "projr (New 1 1 (UserHandler 0))"
  let ?m2 = "projr (New2 1 1 (UserHandler 0))"
  let ?r = "run ServeHTTP_step (init (configure 5 None ?m) L58 2) schedule_cancel"
  let ?r2 = "run ServeHTTP2_step
               (init (configure 5 (Some DefaultOverloadHandler) ?m2) L226 2) schedule_cancel2"
  have n: "New 1 1 (UserHandler 0) = Inr ?m" by (simp add: New_def make_chan_def)
  have n2: "New2 1 1 (UserHandler 0) = Inr ?m2" by (simp add: New2_def make_chan_def)
  have q: "?r \<noteq> None \<and> cancelled (reqs (the ?r) ! 1)"
    by (simp add: run_defs schedule_cancel_def cancelled_def terminated_def eval_nat_numeral)
  then obtain s where r: "?r = Some s" by blast
  have q2: "?r2 \<noteq> None \<and> cancelled (reqs (the ?r2) ! 1)"
    by (simp add: run_defs schedule_cancel2_def cancelled_def terminated_def eval_nat_numeral)
  then obtain s2 where r2: "?r2 = Some s2" by blast
  from cancelled_in_queue [of 1 1 "UserHandler 0" ?m 5 None 2 schedule_cancel s] n r
       cancelled_in_queue [of 1 1 "UserHandler 0" _ 5 "Some DefaultOverloadHandler" 2 _ _
                             ?m2 schedule_cancel2 s2] n2 r2
  have c: "list_all cancel_silent (reqs s)"
    "list_all (cancel_overload (Some DefaultOverloadHandler)) (reqs s2)"
    by blast+
  from q q2 show ?thesis by (simp only: r r2 option.sel option.distinct c simp_thms)
qed

text \<open>
  The claim as stated fails for the second implementation: a request that waits in the
  queue with a timer armed and whose context is cancelled before the deadline and before
  a running slot is free has the overload handler invoked for it.
\<close>

theorem cancelled_request_reaches_overload_handler:
  "history 1 (run ServeHTTP2_step
     (init (configure 5 (Some DefaultOverloadHandler) (projr (New2 1 1 (UserHandler 0)))) L226 2)
     schedule_cancel2) =
   Some [Send Queue, NewTimer, Recv_ctx_done, TimerStop, Recv Queue,
         Invoke_overload DefaultOverloadHandler, Finished Returns]"
  by (simp add: history_def run_defs schedule_cancel2_def eval_nat_numeral)

lemma stepA_no_queue:
  assumes "same_cfg m0 m" "cap (queue m0) = 0" "traceA m0 r" "Send Queue \<notin> set (hist r)"
    "ServeHTTP_step m r a = Some (m', r')"
  shows "Send Queue \<notin> set (hist r')"
proof (cases "pc r")
  case (At l)
  show ?thesis using assms At
    by (cases l; cases a rule: lact_cases)
       (auto simp: ServeHTTP_step_def traceA_def same_cfg_def can_send_def req_defs
          split: if_splits option.splits)
qed (use assms in \<open>auto simp: ServeHTTP_step_def\<close>)

lemma reachA_no_queue:
  assumes "fresh m0" "cap (queue m0) = 0"
    "run ServeHTTP_step (init m0 L58 n) acts = Some s"
  shows "ginv (\<lambda>r. traceA m0 r \<and> Send Queue \<notin> set (hist r)) m0 s"
proof -
  let ?P = "\<lambda>r. traceA m0 r \<and> Send Queue \<notin> set (hist r)"
  have "local_ok ?P m0 ServeHTTP_step"
    unfolding local_ok_def
    using stepA_trace stepA_balance stepA_no_queue [OF _ assms(2)] by blast
  moreover have "env_ok ?P"
    unfolding env_ok_def using envA by (auto simp: cancel_def dest: fire_hist)
  moreover have "ginv ?P m0 (init m0 L58 n)"
    by (rule init_ginv [OF assms(1)]) (simp add: traceA_def arrive_def)
  ultimately show ?thesis using run_ginv assms(3) by blast
qed

lemma traceA_overflow:
  assumes "traceA m0 r" "Send Queue \<notin> set (hist r)" "same_cfg m0 m" "cap (queue m0) = 0"
  shows "overflow_rejected m r"
proof (cases "pc r")
  case (At l)
  show ?thesis using assms At
    by (cases l)
       (auto simp: traceA_def overflow_rejected_def ServeHTTP_step_def same_cfg_def
          can_send_def overloadHandler_def terminated_def req_defs split: option.splits)
qed (use assms in \<open>auto simp: traceA_def endedA_def overflow_rejected_def same_cfg_def
          overloadHandler_def terminated_def ServeHTTP_step_def req_defs split: option.splits\<close>)

text \<open>
  Claim C6.  With \<open>maxInQueue = 0\<close>, in every reachable state no request has ever sent
  to the queue, and every request that failed the fast path is about to invoke the
  overload handler (its next step at line 74 does so), is inside it, or has ended right
  after it.
\<close>

theorem no_queue_rejects_overflow:
  assumes "New maxRunning 0 h = Inr m"
    and "run ServeHTTP_step (init (configure d oh m) L58 n) acts = Some s"
  shows "list_all (overflow_rejected (mw s)) (reqs s)"
proof -
  from New_configure(3) [OF assms(1), of d oh]
  have q: "cap (queue (configure d oh m)) = 0" by simp
  note inv = reachA_no_queue [OF New_configure(1) [OF assms(1)] q assms(2)]
  then have "same_cfg (configure d oh m) (mw s)" by (simp add: ginv_def)
  from reach_list_all [OF inv, of "overflow_rejected (mw s)"] traceA_overflow [OF _ _ this q]
  show ?thesis by blast
qed

lemma traceA_no_deadline:
  assumes "traceA m0 r" "MaxWaitInQueue m0 \<le> 0"
  shows "waits_without_deadline m r"
proof (cases "pc r")
  case (At l)
  show ?thesis using assms At
    by (cases l)
       (auto simp: traceA_def waits_without_deadline_def ServeHTTP_step_def fire_def
          req_defs split: option.splits)
qed (use assms in \<open>auto simp: traceA_def endedA_def waits_without_deadline_def fire_def
          req_defs split: option.splits\<close>)

text \<open>
  Claim C7.  With \<open>MaxWaitInQueue = 0\<close>, in every reachable state no request has a
  timer or has received from the timeout channel, and for a request at the three-way
  \<open>select\<close> the timeout case cannot be taken: the only steps are the send to the running
  pool, possible exactly when it has room, and the receive from the \<open>Done\<close> channel,
  possible exactly when the context is cancelled.
\<close>

theorem no_deadline_without_MaxWaitInQueue:
  assumes "New maxRunning maxInQueue h = Inr m"
    and "run ServeHTTP_step (init (configure 0 oh m) L58 n) acts = Some s"
  shows "list_all (waits_without_deadline (mw s)) (reqs s)"
proof -
  from New_configure(6) [OF assms(1), of 0 oh]
  have "MaxWaitInQueue (configure 0 oh m) \<le> 0" by simp
  from reach_list_all [OF reachA [OF New_configure(1) [OF assms(1)] assms(2)],
         of "waits_without_deadline (mw s)"]
    traceA_no_deadline [OF _ this]
  show ?thesis by blast
qed

theorem no_queue_rejects_overflow_witness:
  "run ServeHTTP_step (init (configure 0 None (projr (New 1 0 (UserHandler 0)))) L58 3)
     [Req 0 Next, Req 1 Next, Req 2 Next, Req 2 Next, Req 2 (Handler Returns)] \<noteq> None \<and>
   pc (reqs (the (run ServeHTTP_step
     (init (configure 0 None (projr (New 1 0 (UserHandler 0)))) L58 3)
     [Req 0 Next, Req 1 Next, Req 2 Next, Req 2 Next, Req 2 (Handler Returns)])) ! 1) = At L74 \<and>
   Send Running \<notin> set (hist (reqs (the (run ServeHTTP_step
     (init (configure 0 None (projr (New 1 0 (UserHandler 0)))) L58 3)
     [Req 0 Next, Req 1 Next, Req 2 Next, Req 2 Next, Req 2 (Handler Returns)])) ! 2)) \<and>
   terminated (reqs (the (run ServeHTTP_step
     (init (configure 0 None (projr (New 1 0 (UserHandler 0)))) L58 3)
     [Req 0 Next, Req 1 Next, Req 2 Next, Req 2 Next, Req 2 (Handler Returns)])) ! 2) \<and>
   list_all
     (overflow_rejected (mw (the (run ServeHTTP_step
        (init (configure 0 None (projr (New 1 0 (UserHandler 0)))) L58 3)
        [Req 0 Next, Req 1 Next, Req 2 Next, Req 2 Next, Req 2 (Handler Returns)]))))
     (reqs (the (run ServeHTTP_step
        (init (configure 0 None (projr (New 1 0 (UserHandler 0)))) L58 3)
        [Req 0 Next, Req 1 Next, Req 2 Next, Req 2 Next, Req 2 (Handler Returns)])))"
proof -
  let ?m = "projr (New 1 0 (UserHandler 0))"
  let ?r = "run ServeHTTP_step (init (configure 0 None ?m) L58 3)
              [Req 0 Next, Req 1 Next, Req 2 Next, Req 2 Next, Req 2 (Handler Returns)]"
  have n: "New 1 0 (UserHandler 0) = Inr ?m" by (simp add: New_def make_chan_def)
  have q: "?r \<noteq> None \<and> pc (reqs (the ?r) ! 1) = At L74 \<and>
           Send Running \<notin> set (hist (reqs (the ?r) ! 2)) \<and> terminated (reqs (the ?r) ! 2)"
    by (simp add: run_defs terminated_def eval_nat_numeral)
  then obtain s where r: "?r = Some s" by blast
  from no_queue_rejects_overflow [OF n r]
  have c: "list_all (overflow_rejected (mw s)) (reqs s)" .
  from q show ?thesis by (simp only: r option.sel option.distinct c simp_thms)
qed

theorem no_deadline_without_MaxWaitInQueue_witness:
  "run ServeHTTP_step (init (configure 0 None (projr (New 1 1 (UserHandler 0)))) L58 2)
     [Req 0 Next, Req 1 Next, Req 1 Next, Req 1 Next] \<noteq> None \<and>
   pc (reqs (the (run ServeHTTP_step
     (init (configure 0 None (projr (New 1 1 (UserHandler 0)))) L58 2)
     [Req 0 Next, Req 1 Next, Req 1 Next, Req 1 Next])) ! 1) = At L92 \<and>
   list_all
     (waits_without_deadline (mw (the (run ServeHTTP_step
        (init (configure 0 None (projr (New 1 1 (UserHandler 0)))) L58 2)
        [Req 0 Next, Req 1 Next, Req 1 Next, Req 1 Next]))))
     (reqs (the (run ServeHTTP_step
        (init (configure 0 None (projr (New 1 1 (UserHandler 0)))) L58 2)
        [Req 0 Next, Req 1 Next, Req 1 Next, Req 1 Next])))"
proof -
  let ?m = "projr (New 1 1 (UserHandler 0))"
  let ?r = "run ServeHTTP_step (init (configure 0 None ?m) L58 2)
              [Req 0 Next, Req 1 Next, Req 1 Next, Req 1 Next]"
  have n: "New 1 1 (UserHandler 0) = Inr ?m" by (simp add: New_def make_chan_def)
  have q: "?r \<noteq> None \<and> pc (reqs (the ?r) ! 1) = At L92"
    by (simp add: run_defs eval_nat_numeral)
  then obtain s where r: "?r = Some s" by blast
  from no_deadline_without_MaxWaitInQueue [OF n r]
  have c: "list_all (waits_without_deadline (mw s)) (reqs s)" .
  from q show ?thesis by (simp only: r option.sel option.distinct c simp_thms)
qed

section \<open>The two implementations compared\<close>

lemmas alone_defs = ServeHTTP_alone_def ServeHTTP2_alone_def judge_def with_responder_def
  enqueues_def terminated_def observe_def hist_defs

lemma fast_agree:
  assumes "can_send (running m)"
  shows "ServeHTTP2_alone sc (with_responder m) = ServeHTTP_alone sc m \<and>
         ServeHTTP_alone sc m \<noteq> Out_of_fuel"
  using assms
  by (cases "ends sc") (simp_all add: alone_defs run_defs eval_nat_numeral)

lemma full_agree:
  assumes "\<not> can_send (running m)" "\<not> can_send (queue m)"
  shows "ServeHTTP2_alone sc (with_responder m) = ServeHTTP_alone sc m \<and>
         ServeHTTP_alone sc m \<noteq> Out_of_fuel"
  using assms
  by (cases "ends sc") (simp_all add: alone_defs run_defs eval_nat_numeral)

lemma queued_slot_agree:
  assumes "enqueues m" "wins sc = SlotFree"
  shows "ServeHTTP2_alone sc (with_responder m) = ServeHTTP_alone sc m \<and>
         ServeHTTP_alone sc m \<noteq> Out_of_fuel"
  using assms
  by (cases "ends sc"; cases "0 < MaxWaitInQueue m"; cases "len (running m)")
     (auto simp: alone_defs run_defs eval_nat_numeral)

lemma queued_deadline_agree:
  assumes "enqueues m" "wins sc = DeadlineFired"
  shows "ServeHTTP2_alone sc (with_responder m) = ServeHTTP_alone sc m \<and>
         ServeHTTP_alone sc m \<noteq> Out_of_fuel"
  using assms
  by (cases "ends sc"; cases "0 < MaxWaitInQueue m")
     (auto simp: alone_defs run_defs eval_nat_numeral)

lemma queued_cancel_differ:
  assumes "enqueues m" "wins sc = Cancelled"
  shows "\<exists>v. ServeHTTP_alone sc m = Ended v \<and> seen v = No_response \<and>
             ServeHTTP2_alone sc (with_responder m) = Ended (v\<lparr>seen := Overload_invoked\<rparr>)"
  using assms
  by (cases "ends sc"; cases "0 < MaxWaitInQueue m")
     (auto simp: alone_defs run_defs eval_nat_numeral)

text \<open>
  Claim C9, as the code has it.  For every middleware state, every resolution of the
  race and every way the invoked handler ends, the two implementations give the same
  verdict (what the caller observes, the permits acquired and released, the occupancy
  left behind), and both are stuck when the chosen case cannot become ready, with one
  exception: when the request is put in the queue and the cancellation wins the race,
  the first implementation ends with no response and the second with the overload
  handler invoked, the permit accounting being the same.  Eight steps always suffice.
\<close>

theorem implementations_agree_except_on_cancellation:
  "(wins sc = Cancelled \<and> enqueues m \<longrightarrow>
      (\<exists>v. ServeHTTP_alone sc m = Ended v \<and> seen v = No_response \<and>
           ServeHTTP2_alone sc (with_responder m) = Ended (v\<lparr>seen := Overload_invoked\<rparr>))) \<and>
   (\<not> (wins sc = Cancelled \<and> enqueues m) \<longrightarrow>
      ServeHTTP2_alone sc (with_responder m) = ServeHTTP_alone sc m \<and>
      ServeHTTP_alone sc m \<noteq> Out_of_fuel)"
proof (cases "enqueues m")
  case True
  then show ?thesis
    using queued_slot_agree queued_deadline_agree queued_cancel_differ
    by (cases "wins sc") auto
next
  case False
  then show ?thesis
    using fast_agree full_agree unfolding enqueues_def by blast
qed

text \<open>
  The two implementations are not observationally equivalent: on the same middleware and
  the same resolution of the race (the cancellation wins) the caller observes no
  response from the first and the overload response from the second.
\<close>

theorem implementations_differ_on_cancellation:
  "ServeHTTP_alone \<lparr>wins = Cancelled, ends = Returns\<rparr> busy =
     Ended \<lparr>seen = No_response, running_permits = (0, 0), queue_permits = (1, 1),
            occupancy = (1, 0)\<rparr> \<and>
   ServeHTTP2_alone \<lparr>wins = Cancelled, ends = Returns\<rparr> busy =
     Ended \<lparr>seen = Overload_invoked, running_permits = (0, 0), queue_permits = (1, 1),
            occupancy = (1, 0)\<rparr>"
  by (simp add: busy_def alone_defs run_defs eval_nat_numeral)

theorem implementations_agree_except_on_cancellation_witness:
  "wins \<lparr>wins = Cancelled, ends = Returns\<rparr> = Cancelled \<and> enqueues busy \<and>
   with_responder busy = busy \<and>
   seen (case ServeHTTP_alone \<lparr>wins = Cancelled, ends = Returns\<rparr> busy of Ended v \<Rightarrow> v) =
     No_response \<and>
   seen (case ServeHTTP2_alone \<lparr>wins = Cancelled, ends = Returns\<rparr> busy of Ended v \<Rightarrow> v) =
     Overload_invoked \<and>
   wins \<lparr>wins = DeadlineFired, ends = Returns\<rparr> \<noteq> Cancelled \<and>
   ServeHTTP2_alone \<lparr>wins = DeadlineFired, ends = Returns\<rparr> (busy\<lparr>MaxWaitInQueue := 5\<rparr>) =
     ServeHTTP_alone \<lparr>wins = DeadlineFired, ends = Returns\<rparr> (busy\<lparr>MaxWaitInQueue := 5\<rparr>) \<and>
   ServeHTTP_alone \<lparr>wins = DeadlineFired, ends = Returns\<rparr> (busy\<lparr>MaxWaitInQueue := 5\<rparr>) \<noteq>
     Out_of_fuel"
proof -
  have e: "enqueues busy" "with_responder busy = busy"
    "with_responder (busy\<lparr>MaxWaitInQueue := 5\<rparr>) = busy\<lparr>MaxWaitInQueue := 5\<rparr>"
    by (simp_all add: busy_def enqueues_def with_responder_def overloadHandler_def
          can_send_def)
  from implementations_agree_except_on_cancellation
         [of "\<lparr>wins = Cancelled, ends = Returns\<rparr>" busy] e
  obtain v where "ServeHTTP_alone \<lparr>wins = Cancelled, ends = Returns\<rparr> busy = Ended v"
    "seen v = No_response"
    "ServeHTTP2_alone \<lparr>wins = Cancelled, ends = Returns\<rparr> busy =
       Ended (v\<lparr>seen := Overload_invoked\<rparr>)"
    by auto
  moreover
  from implementations_agree_except_on_cancellation
         [of "\<lparr>wins = DeadlineFired, ends = Returns\<rparr>" "busy\<lparr>MaxWaitInQueue := 5\<rparr>"] e
  have "ServeHTTP2_alone \<lparr>wins = DeadlineFired, ends = Returns\<rparr> (busy\<lparr>MaxWaitInQueue := 5\<rparr>) =
     ServeHTTP_alone \<lparr>wins = DeadlineFired, ends = Returns\<rparr> (busy\<lparr>MaxWaitInQueue := 5\<rparr>) \<and>
   ServeHTTP_alone \<lparr>wins = DeadlineFired, ends = Returns\<rparr> (busy\<lparr>MaxWaitInQueue := 5\<rparr>) \<noteq>
     Out_of_fuel"
    by simp
  ultimately show ?thesis using e by simp
qed

section \<open>Construction\<close>

text \<open>
  Claim C10.  Neither \<open>New\<close> checks its arguments: with a negative \<open>maxRunning\<close> or a
  negative \<open>maxInQueue\<close> the construction of a channel panics, so no middleware is
  returned, in either implementation.
\<close>

theorem New_negative_panics:
  "maxRunning < 0 \<or> maxInQueue < 0 \<Longrightarrow>
     New maxRunning maxInQueue h = Inl Makechan_size_out_of_range \<and>
     New2 maxRunning maxInQueue h = Inl Makechan_size_out_of_range"
  by (auto simp: New_def New2_def make_chan_def)

theorem New_negative_panics_witness:
  "((-1::int) < 0 \<or> (3::int) < 0) \<and>
   New (-1) 3 (UserHandler 0) = Inl Makechan_size_out_of_range \<and>
   New2 (-1) 3 (UserHandler 0) = Inl Makechan_size_out_of_range"
  using New_negative_panics [of "-1" 3 "UserHandler 0"] by simp

end
